theory Spec2Isabelle
  imports Complex_Main "HOL-Library.Word" "HOL-Library.Signed_Division"
begin

unbundle bit_operations_syntax

section \<open>Data model of image-filter.cc\<close>

text \<open>
  A pixel is what \<open>pdf::Pixmap::iterator::operator[]\<close> yields for the indices 0, 1, 2:
  three unsigned 8-bit channels. A pixmap is read through a cursor that walks a row with
  \<open>p++\<close> and jumps to the next one with \<open>next_row()\<close>; the quantizers never ask it for
  its size, they are handed \<open>width\<close> and \<open>height\<close>. It is therefore a function from the
  row \<open>y\<close> and the column \<open>x\<close> to the pixel. A \<open>pdf::Renderer *\<close> is an address; the
  pixmap built from a renderer is looked up in a store.
\<close>

type_synonym pixel = "8 word \<times> 8 word \<times> 8 word"
type_synonym pixmap = "nat \<Rightarrow> nat \<Rightarrow> pixel"
type_synonym renderer = nat
type_synonym color3 = "int \<times> int \<times> int"

text \<open>\<open>p[i]\<close> after integral promotion to \<open>int\<close>.\<close>

fun ch :: "pixel \<Rightarrow> nat \<Rightarrow> int" where
  "ch (r, g, b) i = (if i = 0 then uint r else if i = 1 then uint g else uint b)"

definition promote :: "pixel \<Rightarrow> color3" where
  "promote p = (ch p 0, ch p 1, ch p 2)"

text \<open>
  The output stream is the sequence of operations performed on the \<open>std::ostream\<close>.
  The run-length writer \<open>rle::R4\<close> lives in rle.hh, outside this file: its constructor,
  \<open>operator <<\<close> and \<open>output_run\<close> are recorded as calls, in order, with their arguments.
\<close>

datatype out_item =
    Str string
  | Dec int
  | Endl
  | Write "8 word list"
  | R4_open int int
  | R4_pixel int
  | R4_run int

datatype error = NotImplementedError | DivisionByZero

record qstate =
  background_color :: color3
  has_foreground :: bool
  has_background :: bool
  stream :: "out_item list"

definition put :: "out_item list \<Rightarrow> qstate \<Rightarrow> qstate" where
  "put items s = s\<lparr>stream := stream s @ items\<rparr>"

text \<open>\<open>write_uint32\<close>: the four bytes of the item, most significant first.\<close>

definition write_uint32 :: "32 word \<Rightarrow> out_item" where
  "write_uint32 item = Write (map (\<lambda>i. ucast (drop_bit ((3 - i) * 8) item)) [0, 1, 2, 3])"

text \<open>
  \<open>((uint32_t)color << 20) + length\<close>: the argument of every \<open>write_uint32\<close> call, in
  unsigned 32-bit arithmetic.
\<close>

definition run_word :: "32 word \<Rightarrow> 32 word \<Rightarrow> 32 word" where
  "run_word color_index run_length = push_bit 20 color_index + run_length"

subsection \<open>The dummy quantizer\<close>

definition dummy_quantizer :: "int \<Rightarrow> int \<Rightarrow> qstate \<Rightarrow> qstate" where
  "dummy_quantizer width height s =
     (let s1 = put [R4_open width height] s;
          s2 = fold (\<lambda>y. put [R4_run width]) [0..<nat height] s1
      in s2\<lparr>background_color := (0xff, 0xff, 0xff)\<rparr>)"

definition DummyQuantizer ::
  "(renderer \<Rightarrow> pixmap) \<Rightarrow> renderer \<Rightarrow> renderer \<Rightarrow> int \<Rightarrow> int \<Rightarrow> qstate \<Rightarrow> qstate" where
  "DummyQuantizer pixmap_of out_fg out_bg width height s = dummy_quantizer width height s"

subsection \<open>The flag updates every classifying quantizer repeats\<close>

text \<open>
  \<open>if (!has_background) for (i...) if (background_color[i] != p_bg[i]) { has_background = true; break; }\<close>
\<close>

definition note_background :: "pixel \<Rightarrow> qstate \<Rightarrow> qstate" where
  "note_background p_bg s =
     (if \<not> has_background s \<and>
         (fst (background_color s) \<noteq> ch p_bg 0 \<or>
          fst (snd (background_color s)) \<noteq> ch p_bg 1 \<or>
          snd (snd (background_color s)) \<noteq> ch p_bg 2)
      then s\<lparr>has_background := True\<rparr> else s)"

text \<open>\<open>p_fg[0] != p_bg[0] || p_fg[1] != p_bg[1] || p_fg[2] != p_bg[2]\<close>\<close>

definition differs :: "pixel \<Rightarrow> pixel \<Rightarrow> bool" where
  "differs p_fg p_bg = (ch p_fg 0 \<noteq> ch p_bg 0 \<or> ch p_fg 1 \<noteq> ch p_bg 1 \<or> ch p_fg 2 \<noteq> ch p_bg 2)"

text \<open>\<open>if (!has_foreground && (p_fg[0] || p_fg[1] || p_fg[2])) has_foreground = true;\<close>\<close>

definition note_foreground :: "pixel \<Rightarrow> qstate \<Rightarrow> qstate" where
  "note_foreground p_fg s =
     (if \<not> has_foreground s \<and> (ch p_fg 0 \<noteq> 0 \<or> ch p_fg 1 \<noteq> 0 \<or> ch p_fg 2 \<noteq> 0)
      then s\<lparr>has_foreground := True\<rparr> else s)"

subsection \<open>The mask quantizer\<close>

definition mask_pixel :: "pixel \<Rightarrow> pixel \<Rightarrow> qstate \<Rightarrow> qstate" where
  "mask_pixel p_fg p_bg s =
     (let s1 = note_background p_bg s
      in if differs p_fg p_bg
         then put [R4_pixel 1] (note_foreground p_fg s1)
         else put [R4_pixel 0] s1)"

definition MaskQuantizer ::
  "(renderer \<Rightarrow> pixmap) \<Rightarrow> renderer \<Rightarrow> renderer \<Rightarrow> int \<Rightarrow> int \<Rightarrow> qstate \<Rightarrow> qstate" where
  "MaskQuantizer pixmap_of out_fg out_bg width height s =
     (if out_fg = out_bg
      then (dummy_quantizer width height s)\<lparr>has_background := True\<rparr>
      else
        let s1 = put [R4_open width height] s;
            bmp_fg = pixmap_of out_fg;
            bmp_bg = pixmap_of out_bg
        in fold (\<lambda>y. fold (\<lambda>x. mask_pixel (bmp_fg y x) (bmp_bg y x)) [0..<nat width])
             [0..<nat height] s1)"

subsection \<open>The web-safe quantizer\<close>

definition output_web_palette :: "qstate \<Rightarrow> qstate" where
  "output_web_palette s =
     fold (\<lambda>r. fold (\<lambda>g. fold (\<lambda>b. put [Write [word_of_int (51 * r), word_of_int (51 * g),
                                                   word_of_int (51 * b)]])
                                [0, 1, 2, 3, 4, 5])
                      [0, 1, 2, 3, 4, 5])
          [0, 1, 2, 3, 4, 5]
          (put [Str ''216'', Endl] s)"

text \<open>
  The index of a foreground pixel. The operands are promoted unsigned bytes, so C's
  truncating division is \<open>div\<close>.
\<close>

definition web_index :: "pixel \<Rightarrow> int" where
  "web_index p_fg =
     ((ch p_fg 2 + 1) div 43) + 6 * (((ch p_fg 1 + 1) div 43) + 6 * ((ch p_fg 0 + 1) div 43))"

text \<open>The body of the \<open>x\<close> loop; the row's locals are \<open>color\<close> and \<open>length\<close> (here \<open>len\<close>).\<close>

definition websafe_pixel :: "pixel \<Rightarrow> pixel \<Rightarrow> qstate \<times> int \<times> int \<Rightarrow> qstate \<times> int \<times> int" where
  "websafe_pixel p_fg p_bg = (\<lambda>(s, color, len).
     let s1 = note_background p_bg s;
         s2 = (if differs p_fg p_bg then note_foreground p_fg s1 else s1);
         new_color = (if differs p_fg p_bg then web_index p_fg else 0xfff)
     in if color = new_color then (s2, color, len + 1)
        else ((if len > 0
               then put [write_uint32 (run_word (word_of_int color) (word_of_int len))] s2
               else s2),
              new_color, 1))"

definition websafe_row :: "pixmap \<Rightarrow> pixmap \<Rightarrow> int \<Rightarrow> nat \<Rightarrow> qstate \<Rightarrow> qstate" where
  "websafe_row bmp_fg bmp_bg width y s =
     (case fold (\<lambda>x. websafe_pixel (bmp_fg y x) (bmp_bg y x)) [0..<nat width] (s, 0xfff, 0) of
        (s', color, len) \<Rightarrow>
          put [write_uint32 (run_word (word_of_int color) (word_of_int len))] s')"

definition WebSafeQuantizer ::
  "(renderer \<Rightarrow> pixmap) \<Rightarrow> renderer \<Rightarrow> renderer \<Rightarrow> int \<Rightarrow> int \<Rightarrow> qstate \<Rightarrow> qstate" where
  "WebSafeQuantizer pixmap_of out_fg out_bg width height s =
     (if out_fg = out_bg
      then (dummy_quantizer width height s)\<lparr>has_background := True\<rparr>
      else
        let s1 = put [Str ''R6 '', Dec width, Str '' '', Dec height, Str '' ''] s;
            s2 = output_web_palette s1;
            bmp_fg = pixmap_of out_fg;
            bmp_bg = pixmap_of out_bg;
            s3 = s2\<lparr>background_color := promote (bmp_bg 0 0)\<rparr>
        in fold (websafe_row bmp_fg bmp_bg width) [0..<nat height] s3)"

subsection \<open>The 18-bit colour key\<close>

text \<open>
  An \<open>Rgb18\<close> is its \<open>int value\<close>. \<open>Rgb18()\<close> is \<open>-1\<close>, the key of a background pixel;
  the other constructors drop the two low bits of each channel.
\<close>

definition Rgb18_none :: int where
  "Rgb18_none = - 1"

definition Rgb18 :: "int \<Rightarrow> int \<Rightarrow> int \<Rightarrow> int" where
  "Rgb18 r g b = (drop_bit 2 r) OR (push_bit 6 (drop_bit 2 g)) OR (push_bit 12 (drop_bit 2 b))"

text \<open>\<open>Rgb18::operator []\<close>\<close>

definition component :: "int \<Rightarrow> nat \<Rightarrow> int" where
  "component val i =
     ((push_bit 2 (drop_bit (6 * i) val)) AND 0xff) OR ((drop_bit (6 * i + 4) val) AND 3)"

text \<open>
  \<open>Rgb18::reduce\<close>. C's \<open>/\<close> truncates (\<open>sdiv\<close>). The call has no defined result when
  \<open>k\<close> is 0, when \<open>n + k - 1\<close> leaves the range of a 32-bit \<open>int\<close>, or when \<open>c - 1\<close> is 0:
  these are the faults. Otherwise every intermediate value is small.
\<close>

definition reduce_fault :: "int \<Rightarrow> bool" where
  "reduce_fault k = (k = 0 \<or> k > 2147483647 - 255 \<or> (256 + k - 1) sdiv k - 1 = 0)"

definition reduce_component :: "int \<Rightarrow> int \<Rightarrow> int" where
  "reduce_component v k =
     (let n = 256;
          c = (n + k - 1) sdiv k;
          m = (v * c) sdiv n
      in ((n - 1) * m) sdiv (c - 1))"

definition reduce :: "int \<Rightarrow> int \<Rightarrow> error + int" where
  "reduce val k =
     (if reduce_fault k then Inl DivisionByZero
      else Inr (Rgb18 (reduce_component (component val 0) k)
                      (reduce_component (component val 1) k)
                      (reduce_component (component val 2) k)))"

subsection \<open>The default quantizer\<close>

text \<open>A \<open>Run\<close> is its colour key and its length.\<close>

type_synonym run = "int \<times> nat"

text \<open>
  The locals of the first pass: the caller's variables, \<open>color_counter\<close>, the bitset
  \<open>original_colors\<close> as the set of its set bits, and \<open>runs\<close>, one list of runs per row
  already scanned (row \<open>y\<close> is filled while \<open>y\<close> is scanned, so it is appended then).
\<close>

record pass1 =
  caller :: qstate
  color_counter :: nat
  original_colors :: "int set"
  runs :: "run list list"

text \<open>The body of the \<open>x\<close> loop; the row's locals are the runs of the row so far and \<open>run\<close>.\<close>

definition default_pixel ::
  "pixel \<Rightarrow> pixel \<Rightarrow> pass1 \<times> run list \<times> run \<Rightarrow> pass1 \<times> run list \<times> run" where
  "default_pixel p_fg p_bg = (\<lambda>(st, line, run).
     let s1 = note_background p_bg (caller st);
         new_color = (if differs p_fg p_bg then Rgb18 (ch p_fg 0) (ch p_fg 1) (ch p_fg 2)
                      else Rgb18_none);
         st1 = (if differs p_fg p_bg
                then (if new_color \<notin> original_colors st
                      then st\<lparr>caller := note_foreground p_fg s1,
                              color_counter := color_counter st + 1,
                              original_colors := insert new_color (original_colors st)\<rparr>
                      else st\<lparr>caller := note_foreground p_fg s1\<rparr>)
                else st\<lparr>caller := s1\<rparr>)
     in if fst run = new_color then (st1, line, (fst run, snd run + 1))
        else (st1, (if snd run > 0 then line @ [run] else line), (new_color, 1)))"

definition default_row :: "pixmap \<Rightarrow> pixmap \<Rightarrow> int \<Rightarrow> nat \<Rightarrow> pass1 \<Rightarrow> pass1" where
  "default_row bmp_fg bmp_bg width y st =
     (case fold (\<lambda>x. default_pixel (bmp_fg y x) (bmp_bg y x)) [0..<nat width]
             (st, [], (Rgb18_none, 0)) of
        (st', line, run) \<Rightarrow>
          st'\<lparr>runs := runs st' @ [if snd run > 0 then line @ [run] else line]\<rparr>)"

text \<open>\<open>for (size_t color = 0; color < original_colors.size(); color++)\<close> visits these.\<close>

definition all_colors :: "int list" where
  "all_colors = [0..262143]"

text \<open>
  The inner loop of the palette search over the colours still to visit, with
  \<open>quantized_colors\<close> and \<open>new_color_counter\<close>; \<open>break\<close> returns at once.
\<close>

fun count_reduced ::
  "nat \<Rightarrow> int \<Rightarrow> int set \<Rightarrow> int list \<Rightarrow> int set \<Rightarrow> nat \<Rightarrow> error + (int set \<times> nat)" where
  "count_reduced max_fg_colors divisor orig [] quantized n = Inr (quantized, n)"
| "count_reduced max_fg_colors divisor orig (color # rest) quantized n =
     (if color \<notin> orig then count_reduced max_fg_colors divisor orig rest quantized n
      else case reduce color divisor of
             Inl e \<Rightarrow> Inl e
           | Inr new_color \<Rightarrow>
               if new_color \<notin> quantized
               then (if n + 1 > max_fg_colors then Inr (insert new_color quantized, n + 1)
                     else count_reduced max_fg_colors divisor orig rest
                            (insert new_color quantized) (n + 1))
               else count_reduced max_fg_colors divisor orig rest quantized n)"

lemma count_reduced_grows:
  "count_reduced maxc k orig cs q n = Inr (q', n') \<Longrightarrow> n < n' \<Longrightarrow> \<not> reduce_fault k"
  by (induction cs arbitrary: q n)
     (auto simp: reduce_def split: if_splits sum.splits)

lemma sdiv_nonneg: "0 \<le> a \<Longrightarrow> 0 < b \<Longrightarrow> a sdiv b = a div (b::int)"
  by (cases "a = 0") (simp_all add: signed_divide_int_def sgn_if)

lemma reduce_fault_large: "255 < k \<Longrightarrow> reduce_fault k"
proof -
  assume k: "255 < k"
  have "(255 + k) div k = 1"
    using k by (intro int_div_pos_eq [where r = 255]) auto
  then show ?thesis
    using k by (simp add: reduce_fault_def sdiv_nonneg)
qed

text \<open>
  The \<open>while\<close> loop (\<open>counter\<close> is \<open>color_counter\<close>): the result is the final
  \<open>divisor\<close>, \<open>color_counter\<close> and
  \<open>quantized_colors\<close>.
\<close>

function palette_search ::
  "nat \<Rightarrow> int set \<Rightarrow> nat \<Rightarrow> int \<Rightarrow> int set \<Rightarrow> error + (int \<times> nat \<times> int set)" where
  "palette_search max_fg_colors orig counter divisor quantized =
     (if counter > max_fg_colors
      then (case count_reduced max_fg_colors (divisor + 1) orig all_colors {} 0 of
              Inl e \<Rightarrow> Inl e
            | Inr (q, n) \<Rightarrow> palette_search max_fg_colors orig n (divisor + 1) q)
      else Inr (divisor, counter, quantized))"
  by pat_completeness auto

termination
proof (relation "measure (\<lambda>(maxc, orig, cc, d, q). if cc > maxc then 1 + nat (257 - d) else 0)")
  show "wf (measure (\<lambda>(maxc, orig, cc, d, q). if cc > maxc then 1 + nat (257 - d) else 0))"
    by simp
next
  fix max_fg_colors :: nat and orig :: "int set" and counter :: nat and divisor :: int
    and quantized :: "int set" and x2 :: "int set \<times> nat" and q :: "int set" and n :: nat
  assume more: "max_fg_colors < counter"
    and res: "count_reduced max_fg_colors (divisor + 1) orig all_colors {} 0 = Inr x2"
    and x2: "(q, n) = x2"
  show "((max_fg_colors, orig, n, divisor + 1, q), (max_fg_colors, orig, counter, divisor, quantized))
        \<in> measure (\<lambda>(maxc, orig, cc, d, q). if cc > maxc then 1 + nat (257 - d) else 0)"
  proof (cases "max_fg_colors < n")
    case False
    then show ?thesis using more by simp
  next
    case True
    then have "0 < n" by simp
    with res x2 have "\<not> reduce_fault (divisor + 1)"
      using count_reduced_grows [of max_fg_colors "divisor + 1" orig all_colors "{}" 0 q n] by simp
    then have "divisor + 1 \<le> 255"
      using reduce_fault_large [of "divisor + 1"] by linarith
    then show ?thesis using more True by simp
  qed
qed

declare palette_search.simps [simp del]

text \<open>Output the palette.\<close>

definition output_palette :: "nat \<Rightarrow> int set \<Rightarrow> qstate \<Rightarrow> qstate" where
  "output_palette counter quantized s =
     (if counter = 0
      then put [Dec 1, Endl, Str [CHR 0xff, CHR 0xff, CHR 0xff]] s
      else fold (\<lambda>color s'. if color \<in> quantized
                              then put [Write [word_of_int (component color 0),
                                               word_of_int (component color 1),
                                               word_of_int (component color 2)]] s'
                              else s')
             all_colors (put [Dec (int counter), Endl] s))"

text \<open>
  Map colours into colour indices. A \<open>std::map<int, uint32_t>\<close> is a finite map;
  \<open>operator []\<close> reads 0 for a key that is absent. The loop that numbers the set bits of
  a bitset with \<open>last_color_index++\<close> occurs twice, over \<open>original_colors\<close> into
  \<open>color_map\<close> and over \<open>quantized_colors\<close> into \<open>quantized_color_map\<close>.
\<close>

type_synonym color_map = "int \<rightharpoonup> 32 word"

definition lookup0 :: "color_map \<Rightarrow> int \<Rightarrow> 32 word" where
  "lookup0 m key = (case m key of Some v \<Rightarrow> v | None \<Rightarrow> 0)"

definition number_colors :: "int set \<Rightarrow> int list \<Rightarrow> color_map \<times> 32 word \<Rightarrow> color_map \<times> 32 word" where
  "number_colors present colors =
     fold (\<lambda>color (m, last_color_index).
             if color \<notin> present then (m, last_color_index)
             else (m(color \<mapsto> last_color_index), last_color_index + 1)) colors"

definition make_color_map :: "int \<Rightarrow> int set \<Rightarrow> int set \<Rightarrow> error + color_map" where
  "make_color_map divisor orig quantized =
     (let m0 = Map.empty(- 1 \<mapsto> 0xfff)
      in if divisor = 4 then Inr (fst (number_colors orig all_colors (m0, 0)))
         else
           let quantized_color_map = fst (number_colors quantized all_colors (Map.empty, 0))
           in fold (\<lambda>color r. case r of Inl e \<Rightarrow> Inl e
                                 | Inr m \<Rightarrow> (case reduce color divisor of Inl e \<Rightarrow> Inl e
                                            | Inr new_color \<Rightarrow>
                                                Inr (m(color \<mapsto> lookup0 quantized_color_map new_color))))
                all_colors (Inr m0))"

text \<open>Output the runs.\<close>

definition output_runs :: "color_map \<Rightarrow> run list list \<Rightarrow> qstate \<Rightarrow> qstate" where
  "output_runs cmap rs =
     fold (\<lambda>line_runs.
             fold (\<lambda>run. put [write_uint32 (run_word (lookup0 cmap (fst run)) (word_of_nat (snd run)))])
               line_runs) rs"

text \<open>The first pass of \<open>DefaultQuantizer::operator()\<close>, up to the palette search.\<close>

definition default_scan :: "pixmap \<Rightarrow> pixmap \<Rightarrow> int \<Rightarrow> int \<Rightarrow> qstate \<Rightarrow> pass1" where
  "default_scan bmp_fg bmp_bg width height s =
     (let s1 = put [Str ''R6 '', Dec width, Str '' '', Dec height, Str '' ''] s;
          s2 = s1\<lparr>background_color := promote (bmp_bg 0 0)\<rparr>
      in fold (default_row bmp_fg bmp_bg width) [0..<nat height]
           \<lparr>caller = s2, color_counter = 0, original_colors = {}, runs = []\<rparr>)"

text \<open>
  \<open>max_fg_colors\<close> is \<open>djvu::max_fg_colors\<close> of djvuconst.hh, a parameter here. A
  fault of \<open>reduce\<close> ends the call with \<open>Inl\<close>; what the stream and the flags held by
  then is not part of that result.
\<close>

definition DefaultQuantizer ::
  "nat \<Rightarrow> (renderer \<Rightarrow> pixmap) \<Rightarrow> renderer \<Rightarrow> renderer \<Rightarrow> int \<Rightarrow> int \<Rightarrow> qstate
     \<Rightarrow> error + qstate" where
  "DefaultQuantizer max_fg_colors pixmap_of out_fg out_bg width height s =
     (if out_fg = out_bg
      then Inr ((dummy_quantizer width height s)\<lparr>has_background := True\<rparr>)
      else
        let st = default_scan (pixmap_of out_fg) (pixmap_of out_bg) width height s
        in case palette_search max_fg_colors (original_colors st) (color_counter st) 4 {} of
             Inl e \<Rightarrow> Inl e
           | Inr (divisor, counter, qc) \<Rightarrow>
               let quantized = (if divisor = 4 then original_colors st else qc);
                   s3 = output_palette counter quantized (caller st)
               in case make_color_map divisor (original_colors st) quantized of
                    Inl e \<Rightarrow> Inl e
                  | Inr cmap \<Rightarrow> Inr (output_runs cmap (runs st) s3))"

subsection \<open>The GraphicsMagick quantizer, built without GraphicsMagick\<close>

text \<open>
  The \<open>#else\<close> branch: the constructor throws, and \<open>operator()\<close> has an empty body
  ("just to satisfy compilers"). The configuration is not inspected. \<open>operator()\<close> is a
  member function: it is called on an object, here \<open>this\<close>.
\<close>

datatype quantizer = GraphicsMagick

definition GraphicsMagickQuantizer_new :: "'config \<Rightarrow> error + quantizer" where
  "GraphicsMagickQuantizer_new config = Inl NotImplementedError"

definition GraphicsMagickQuantizer ::
  "quantizer \<Rightarrow> (renderer \<Rightarrow> pixmap) \<Rightarrow> renderer \<Rightarrow> renderer \<Rightarrow> int \<Rightarrow> int \<Rightarrow> qstate
     \<Rightarrow> error + qstate" where
  "GraphicsMagickQuantizer this pixmap_of out_fg out_bg width height s = Inr s"

text \<open>
  A call of this variant: the only way to an object is the constructor, so the call is
  the constructor followed by \<open>operator()\<close> on what it built. The result is the
  exception that ended it, if any, and the caller's variables and stream at that moment;
  the constructor has no access to them.
\<close>

definition GraphicsMagickQuantizer_invoke ::
  "'config \<Rightarrow> (renderer \<Rightarrow> pixmap) \<Rightarrow> renderer \<Rightarrow> renderer \<Rightarrow> int \<Rightarrow> int \<Rightarrow> qstate
     \<Rightarrow> error option \<times> qstate" where
  "GraphicsMagickQuantizer_invoke config pixmap_of out_fg out_bg width height s =
     (case GraphicsMagickQuantizer_new config of
        Inl e \<Rightarrow> (Some e, s)
      | Inr this \<Rightarrow>
          (case GraphicsMagickQuantizer this pixmap_of out_fg out_bg width height s of
             Inl e \<Rightarrow> (Some e, s)
           | Inr s' \<Rightarrow> (None, s')))"

section \<open>Vocabulary for the properties\<close>

text \<open>
  Run-length coding of a row, as both run loops perform it: the current run is \<open>(c, n)\<close>,
  a pixel of the same colour lengthens it, another colour closes it (if it is not empty)
  and opens a run of length 1. \<open>expand\<close> decodes a list of runs.
\<close>

fun rle_from :: "'c \<Rightarrow> nat \<Rightarrow> 'c list \<Rightarrow> ('c \<times> nat) list" where
  "rle_from c n [] = (if n > 0 then [(c, n)] else [])"
| "rle_from c n (x # xs) =
     (if c = x then rle_from c (Suc n) xs
      else (if n > 0 then [(c, n)] else []) @ rle_from x 1 xs)"

definition expand :: "('c \<times> nat) list \<Rightarrow> 'c list" where
  "expand rs = concat (map (\<lambda>(c, n). replicate n c) rs)"

text \<open>
  The colour the web-safe quantizer gives a pixel (\<open>new_color\<close>), the word it writes for a
  run, and what a row's loop state stands for: the stream so far and the open run.
\<close>

definition web_color :: "pixel \<Rightarrow> pixel \<Rightarrow> int" where
  "web_color p_fg p_bg = (if differs p_fg p_bg then web_index p_fg else 0xfff)"

definition web_item :: "int \<times> nat \<Rightarrow> out_item" where
  "web_item r = write_uint32 (run_word (word_of_int (fst r)) (word_of_nat (snd r)))"

definition web_pending :: "qstate \<times> int \<times> int \<Rightarrow> out_item list" where
  "web_pending t = stream (fst t) @
     (if 0 < snd (snd t) then [web_item (fst (snd t), nat (snd (snd t)))] else [])"

text \<open>
  The specification's words for the web-safe quantizer: entry \<open>i\<close> of the palette is
  \<open>(51 (i / 36), 51 ((i / 6) % 6), 51 (i % 6))\<close>, and the index of a foreground pixel
  is \<open>floor ((B + 1) / 43) + 6 (floor ((G + 1) / 43) + 6 floor ((R + 1) / 43))\<close>, with
  real division.
\<close>

definition web_palette_entry :: "nat \<Rightarrow> out_item" where
  "web_palette_entry i =
     Write [word_of_nat (51 * (i div 36)), word_of_nat (51 * ((i div 6) mod 6)),
            word_of_nat (51 * (i mod 6))]"

definition web_index_spec :: "int \<Rightarrow> int \<Rightarrow> int \<Rightarrow> int" where
  "web_index_spec R G B =
     \<lfloor>(real_of_int B + 1) / 43\<rfloor> + 6 * (\<lfloor>(real_of_int G + 1) / 43\<rfloor> + 6 * \<lfloor>(real_of_int R + 1) / 43\<rfloor>)"

text \<open>
  Some pixel of the page differs from its background pixel and is not pure black.
\<close>

definition raises_foreground :: "pixmap \<Rightarrow> pixmap \<Rightarrow> int \<Rightarrow> int \<Rightarrow> bool" where
  "raises_foreground bmp_fg bmp_bg width height =
     (\<exists>y\<in>set [0..<nat height]. \<exists>x\<in>set [0..<nat width].
        bmp_fg y x \<noteq> bmp_bg y x \<and> bmp_fg y x \<noteq> (0, 0, 0))"

text \<open>
  The key the default quantizer gives a pixel (\<open>new_color\<close>), what a row's loop state
  stands for (the runs closed so far and the open run), the invariant that
  \<open>color_counter\<close> counts the set bits of \<open>original_colors\<close>, and the keys of all
  foreground pixels of a page.
\<close>

definition default_color :: "pixel \<Rightarrow> pixel \<Rightarrow> int" where
  "default_color p_fg p_bg =
     (if p_fg \<noteq> p_bg then Rgb18 (ch p_fg 0) (ch p_fg 1) (ch p_fg 2) else Rgb18_none)"

definition default_pending :: "pass1 \<times> run list \<times> run \<Rightarrow> run list" where
  "default_pending t = fst (snd t) @ (if 0 < snd (snd (snd t)) then [snd (snd t)] else [])"

definition counted :: "pass1 \<Rightarrow> bool" where
  "counted st \<longleftrightarrow> finite (original_colors st) \<and> color_counter st = card (original_colors st)"

definition foreground_colors :: "pixmap \<Rightarrow> pixmap \<Rightarrow> int \<Rightarrow> int \<Rightarrow> int set" where
  "foreground_colors bmp_fg bmp_bg width height =
     (\<Union>y\<in>set [0..<nat height]. \<Union>x\<in>set [0..<nat width].
        if bmp_fg y x \<noteq> bmp_bg y x then {default_color (bmp_fg y x) (bmp_bg y x)} else {})"

text \<open>
  The three bytes written for a palette colour, and the word written for a run under a
  colour map.
\<close>

definition palette_entry :: "int \<Rightarrow> out_item" where
  "palette_entry color =
     Write [word_of_int (component color 0), word_of_int (component color 1),
            word_of_int (component color 2)]"

definition default_item :: "color_map \<Rightarrow> run \<Rightarrow> out_item" where
  "default_item cmap run =
     write_uint32 (run_word (lookup0 cmap (fst run)) (word_of_nat (snd run)))"

text \<open>
  The specification's words for the reduction of a key under the divisor \<open>k\<close>:
  \<open>c\<close> is the ceiling of \<open>256 / k\<close>; a channel value \<open>v\<close> goes to the bucket
  \<open>m = floor (v c / 256)\<close> and to the reduced value \<open>floor (255 m / (c - 1))\<close>, with
  real division; the three reduced values are packed with six bits each, the two low bits
  of each dropped.
\<close>

definition reduce_spec :: "int \<Rightarrow> int \<Rightarrow> int" where
  "reduce_spec val k =
     (let c = \<lceil>256 / real_of_int k\<rceil>;
          reduced = (\<lambda>v. \<lfloor>255 * real_of_int \<lfloor>real_of_int v * real_of_int c / 256\<rfloor>
                            / real_of_int (c - 1)\<rfloor>)
      in reduced (component val 0) div 4
         + 64 * (reduced (component val 1) div 4)
         + 4096 * (reduced (component val 2) div 4))"

text \<open>
  The result of \<open>reduce\<close> when it does not fault, for one key and for a set of keys.
\<close>

definition reduced_colors :: "int \<Rightarrow> int set \<Rightarrow> int set" where
  "reduced_colors k present =
     (\<lambda>color. Rgb18 (reduce_component (component color 0) k)
                      (reduce_component (component color 1) k)
                      (reduce_component (component color 2) k)) ` present"

definition reduced :: "int \<Rightarrow> int \<Rightarrow> int" where
  "reduced k color =
     Rgb18 (reduce_component (component color 0) k) (reduce_component (component color 1) k)
       (reduce_component (component color 2) k)"

text \<open>
  Reading the wire format back, in the specification's words: a run is four bytes, a
  32-bit word with the most significant byte first; its upper twelve bits are the index
  and its lower twenty bits the length.
\<close>

fun read_uint32 :: "out_item \<Rightarrow> 32 word option" where
  "read_uint32 (Write [b0, b1, b2, b3]) =
     Some (push_bit 24 (ucast b0) OR push_bit 16 (ucast b1) OR push_bit 8 (ucast b2) OR ucast b3)"
| "read_uint32 item = None"

definition decode_run :: "out_item \<Rightarrow> (int \<times> nat) option" where
  "decode_run item =
     map_option (\<lambda>w. (uint (drop_bit 20 w), unat (take_bit 20 w))) (read_uint32 item)"

text \<open>
  The specification's words for the palette of the default quantizer. A colour stands
  for itself when no reduction took place (the divisor is still 4) and for its reduction
  under the final divisor otherwise; the final palette is the set of these
  representatives of all foreground colours, in ascending order of the keys; the index of
  a colour is the place of its representative in the palette, counted from 0, and the
  index of the key of a background pixel is 0xfff.
\<close>

fun position :: "int list \<Rightarrow> int \<Rightarrow> nat" where
  "position [] c = 0"
| "position (x # xs) c = (if x = c then 0 else Suc (position xs c))"

definition representative :: "int \<Rightarrow> int \<Rightarrow> int" where
  "representative divisor c = (if divisor = 4 then c else reduced divisor c)"

definition palette_of :: "int \<Rightarrow> int set \<Rightarrow> int list" where
  "palette_of divisor present = sorted_list_of_set (representative divisor ` present)"

definition color_index :: "int \<Rightarrow> int list \<Rightarrow> int \<Rightarrow> 32 word" where
  "color_index divisor pal c =
     (if c = Rgb18_none then 0xfff else word_of_nat (position pal (representative divisor c)))"

section \<open>Basic facts about the stream and the flags\<close>

lemma put_put: "put ys (put xs s) = put (xs @ ys) s"
  by (simp add: put_def)

lemma put_fields [simp]:
  "stream (put xs s) = stream s @ xs"
  "background_color (put xs s) = background_color s"
  "has_foreground (put xs s) = has_foreground s"
  "has_background (put xs s) = has_background s"
  by (simp_all add: put_def)

lemma fold_put_const: "fold (\<lambda>y. put [a]) ys s = put (replicate (length ys) a) s"
proof (induction ys arbitrary: s)
  case Nil
  show ?case by (simp add: put_def)
next
  case (Cons y ys)
  have "put (replicate (length ys) a) (put [a] s) = put (a # replicate (length ys) a) s"
    by (simp add: put_put)
  with Cons show ?case by simp
qed

lemma dummy_quantizer_eq:
  "dummy_quantizer width height s =
     s\<lparr>stream := stream s @ R4_open width height # replicate (nat height) (R4_run width),
       background_color := (0xff, 0xff, 0xff)\<rparr>"
  by (simp add: dummy_quantizer_def fold_put_const put_def)

text \<open>Three ways a loop acts on one field: it leaves it alone, raises a flag, or appends.\<close>

lemma fold_frame: "(\<And>x s. g (f x s) = g s) \<Longrightarrow> g (fold f xs s) = g s"
  by (induction xs arbitrary: s) simp_all

lemma fold_flag:
  "(\<And>x s. P (f x s) = (P s \<or> Q x)) \<Longrightarrow> P (fold f xs s) = (P s \<or> (\<exists>x\<in>set xs. Q x))"
  by (induction xs arbitrary: s) auto

lemma fold_emit:
  "(\<And>x s. g (f x s) = g s @ e x) \<Longrightarrow> g (fold f xs s) = g s @ concat (map e xs)"
  by (induction xs arbitrary: s) simp_all

lemma fold_invariant: "(\<And>x s. I s \<Longrightarrow> I (f x s)) \<Longrightarrow> I s \<Longrightarrow> I (fold f xs s)"
  by (induction xs arbitrary: s) simp_all

lemma note_background_fields [simp]:
  "stream (note_background p s) = stream s"
  "background_color (note_background p s) = background_color s"
  "has_foreground (note_background p s) = has_foreground s"
  "has_background (note_background p s) = (has_background s \<or> background_color s \<noteq> promote p)"
  by (auto simp: note_background_def promote_def prod_eq_iff)

lemma note_foreground_fields [simp]:
  "stream (note_foreground p s) = stream s"
  "background_color (note_foreground p s) = background_color s"
  "has_background (note_foreground p s) = has_background s"
  "has_foreground (note_foreground p s) = (has_foreground s \<or> p \<noteq> (0, 0, 0))"
  by (cases p; auto simp: note_foreground_def uint_0_iff)+

lemma differs_iff: "differs p q \<longleftrightarrow> p \<noteq> q"
  by (cases p; cases q) (auto simp: differs_def word_uint_eq_iff)

lemma mask_pixel_fields [simp]:
  "background_color (mask_pixel p q s) = background_color s"
  "stream (mask_pixel p q s) = stream s @ [R4_pixel (if p \<noteq> q then 1 else 0)]"
  "has_foreground (mask_pixel p q s) = (has_foreground s \<or> (p \<noteq> q \<and> p \<noteq> (0, 0, 0)))"
  by (auto simp: mask_pixel_def Let_def differs_iff)

section \<open>Run-length coding and the web-safe rows\<close>

lemma expand_rle_from: "expand (rle_from c n xs) = replicate n c @ xs"
  by (induction xs arbitrary: c n) (auto simp: expand_def replicate_append_same)

lemma rle_from_positive: "(c', n') \<in> set (rle_from c n xs) \<Longrightarrow> 0 < n'"
  by (induction xs arbitrary: c n) (auto split: if_splits)

lemma websafe_pixel_fields [simp]:
  "background_color (fst (websafe_pixel p q t)) = background_color (fst t)"
  "has_foreground (fst (websafe_pixel p q t)) =
     (has_foreground (fst t) \<or> (p \<noteq> q \<and> p \<noteq> (0, 0, 0)))"
  by (auto simp: websafe_pixel_def Let_def differs_iff split: prod.splits)

lemma websafe_fold_pending:
  "0 \<le> len \<Longrightarrow>
   web_pending (fold (\<lambda>x. websafe_pixel (f x) (g x)) xs (s, c, len)) =
     stream s @ map web_item (rle_from c (nat len) (map (\<lambda>x. web_color (f x) (g x)) xs))"
proof (induction xs arbitrary: s c len)
  case Nil
  then show ?case by (auto simp: web_pending_def)
next
  case (Cons x xs)
  show ?case
  proof (cases "c = web_color (f x) (g x)")
    case True
    then have "websafe_pixel (f x) (g x) (s, c, len) =
        (if differs (f x) (g x) then note_foreground (f x) (note_background (g x) s)
         else note_background (g x) s, c, len + 1)"
      by (simp add: websafe_pixel_def web_color_def Let_def)
    moreover have "nat (len + 1) = Suc (nat len)" using Cons.prems by simp
    ultimately show ?thesis using True Cons.prems Cons.IH [of "len + 1"] by simp
  next
    case False
    then have "websafe_pixel (f x) (g x) (s, c, len) =
        (if len > 0 then put [web_item (c, nat len)]
            (if differs (f x) (g x) then note_foreground (f x) (note_background (g x) s)
             else note_background (g x) s)
         else (if differs (f x) (g x) then note_foreground (f x) (note_background (g x) s)
               else note_background (g x) s), web_color (f x) (g x), 1)"
      using Cons.prems by (simp add: websafe_pixel_def web_color_def Let_def web_item_def)
    then show ?thesis using False Cons.prems Cons.IH [of 1] by simp
  qed
qed

lemma websafe_fold_len:
  "0 \<le> len \<Longrightarrow> xs \<noteq> [] \<or> 0 < len \<Longrightarrow>
     0 < snd (snd (fold (\<lambda>x. websafe_pixel (f x) (g x)) xs (s, c, len)))"
proof (induction xs arbitrary: s c len)
  case Nil
  then show ?case by simp
next
  case (Cons x xs)
  obtain s' c' len' where step: "websafe_pixel (f x) (g x) (s, c, len) = (s', c', len')"
    by (cases "websafe_pixel (f x) (g x) (s, c, len)") auto
  then have "0 < len'" using Cons.prems(1)
    by (auto simp: websafe_pixel_def Let_def split: if_splits)
  then show ?case using Cons.IH [of len' s' c'] step by simp
qed

lemma websafe_row_stream:
  "0 < width \<Longrightarrow>
   stream (websafe_row bmp_fg bmp_bg width y s) =
     stream s @ map web_item
       (rle_from 0xfff 0 (map (\<lambda>x. web_color (bmp_fg y x) (bmp_bg y x)) [0..<nat width]))"
proof -
  assume w: "0 < width"
  let ?t = "fold (\<lambda>x. websafe_pixel (bmp_fg y x) (bmp_bg y x)) [0..<nat width] (s, 0xfff, 0)"
  have pos: "0 < snd (snd ?t)"
    using w by (intro websafe_fold_len) auto
  have "web_pending ?t = stream s @ map web_item
       (rle_from 0xfff 0 (map (\<lambda>x. web_color (bmp_fg y x) (bmp_bg y x)) [0..<nat width]))"
    using websafe_fold_pending [where len = 0 and f = "bmp_fg y" and g = "bmp_bg y"
        and xs = "[0..<nat width]" and s = s and c = "0xfff"] by simp
  moreover have "stream (websafe_row bmp_fg bmp_bg width y s) = web_pending ?t"
    using pos by (simp add: websafe_row_def web_pending_def web_item_def case_prod_beta)
  ultimately show ?thesis by simp
qed

lemma websafe_row_fields [simp]:
  "background_color (websafe_row bmp_fg bmp_bg width y s) = background_color s"
  "has_foreground (websafe_row bmp_fg bmp_bg width y s) =
     (has_foreground s \<or>
      (\<exists>x\<in>set [0..<nat width]. bmp_fg y x \<noteq> bmp_bg y x \<and> bmp_fg y x \<noteq> (0, 0, 0)))"
proof -
  let ?f = "\<lambda>x. websafe_pixel (bmp_fg y x) (bmp_bg y x)"
  have "background_color (fst (fold ?f [0..<nat width] (s, 0xfff, 0))) = background_color s"
    using fold_frame [of "\<lambda>t. background_color (fst t)" ?f "[0..<nat width]" "(s, 0xfff, 0)"]
    by simp
  then show "background_color (websafe_row bmp_fg bmp_bg width y s) = background_color s"
    by (simp add: websafe_row_def case_prod_beta)
  have "has_foreground (fst (fold ?f [0..<nat width] (s, 0xfff, 0))) =
     (has_foreground s \<or>
      (\<exists>x\<in>set [0..<nat width]. bmp_fg y x \<noteq> bmp_bg y x \<and> bmp_fg y x \<noteq> (0, 0, 0)))"
    using fold_flag [of "\<lambda>t. has_foreground (fst t)" ?f
        "\<lambda>x. bmp_fg y x \<noteq> bmp_bg y x \<and> bmp_fg y x \<noteq> (0, 0, 0)"
        "[0..<nat width]" "(s, 0xfff, 0)"]
    by simp
  then show "has_foreground (websafe_row bmp_fg bmp_bg width y s) =
     (has_foreground s \<or>
      (\<exists>x\<in>set [0..<nat width]. bmp_fg y x \<noteq> bmp_bg y x \<and> bmp_fg y x \<noteq> (0, 0, 0)))"
    by (simp add: websafe_row_def case_prod_beta)
qed

section \<open>The mask and web-safe quantizers\<close>

lemma fold_put: "fold (\<lambda>x. put (e x)) xs = put (concat (map e xs))"
proof
  fix s show "fold (\<lambda>x. put (e x)) xs s = put (concat (map e xs)) s"
  proof (induction xs arbitrary: s)
    case Nil
    show ?case by (simp add: put_def)
  next
    case (Cons x xs)
    then show ?case by (simp add: put_put)
  qed
qed

lemma web_palette_items:
  "concat (map (\<lambda>r. concat (map (\<lambda>g. concat (map (\<lambda>b.
       [Write [word_of_int (51 * r), word_of_int (51 * g), word_of_int (51 * b)]])
     [0, 1, 2, 3, 4, 5])) [0, 1, 2, 3, 4, 5])) [0, 1, 2, 3, 4, 5]) =
   map web_palette_entry [0..<216]"
  by code_simp

lemma output_web_palette_eq:
  "output_web_palette s = put ([Str ''216'', Endl] @ map web_palette_entry [0..<216]) s"
  unfolding output_web_palette_def fold_put web_palette_items put_put ..

lemma web_bucket_range: "0 \<le> (uint (v :: 8 word) + 1) div 43 \<and> (uint v + 1) div 43 \<le> 5"
proof -
  have "uint v + 1 \<le> 256" using uint_bounded [of v] by simp
  then have "(uint v + 1) div 43 \<le> 256 div 43" by (intro zdiv_mono1) simp_all
  moreover have "0 \<le> (uint v + 1) div 43" by (simp add: pos_imp_zdiv_nonneg_iff)
  ultimately show ?thesis by simp
qed

lemma web_index_range: "0 \<le> web_index p \<and> web_index p \<le> 215"
proof -
  obtain r g b where p: "p = (r, g, b)" by (cases p)
  show ?thesis
    using web_bucket_range [of r] web_bucket_range [of g] web_bucket_range [of b]
    unfolding p web_index_def by simp
qed

lemma web_index_spec_eq: "web_index (r, g, b) = web_index_spec (uint r) (uint g) (uint b)"
proof -
  have h: "\<And>v::int. \<lfloor>(real_of_int v + 1) / 43\<rfloor> = (v + 1) div 43"
    using floor_divide_of_int_eq [where ?'a = real]
    by (metis of_int_1 of_int_add of_int_numeral)
  show ?thesis unfolding web_index_def web_index_spec_def h by simp
qed

lemma WebSafeQuantizer_stream:
  assumes "out_fg \<noteq> out_bg" "0 < width"
  shows "stream (WebSafeQuantizer pixmap_of out_fg out_bg width height s) =
      stream s @ [Str ''R6 '', Dec width, Str '' '', Dec height, Str '' '', Str ''216'', Endl] @
      map web_palette_entry [0..<216] @
      concat (map (\<lambda>y. map web_item (rle_from 0xfff 0
                (map (\<lambda>x. web_color (pixmap_of out_fg y x) (pixmap_of out_bg y x)) [0..<nat width])))
              [0..<nat height])"
proof -
  let ?e = "\<lambda>y. map web_item (rle_from 0xfff 0
                (map (\<lambda>x. web_color (pixmap_of out_fg y x) (pixmap_of out_bg y x)) [0..<nat width]))"
  have "\<And>s0. stream (fold (websafe_row (pixmap_of out_fg) (pixmap_of out_bg) width) [0..<nat height] s0)
      = stream s0 @ concat (map ?e [0..<nat height])"
    by (rule fold_emit) (simp add: websafe_row_stream assms(2))
  then show ?thesis
    using assms(1) by (simp add: WebSafeQuantizer_def Let_def output_web_palette_eq)
qed




lemma MaskQuantizer_background_color:
  "out_fg \<noteq> out_bg \<Longrightarrow>
     background_color (MaskQuantizer pixmap_of out_fg out_bg width height s) = background_color s"
  by (simp add: MaskQuantizer_def Let_def fold_frame)

lemma WebSafeQuantizer_background_color:
  "out_fg \<noteq> out_bg \<Longrightarrow>
     background_color (WebSafeQuantizer pixmap_of out_fg out_bg width height s) = promote (pixmap_of out_bg 0 0)"
  by (simp add: WebSafeQuantizer_def Let_def fold_frame)

section \<open>The first pass of the default quantizer\<close>

lemma default_pixel_fields [simp]:
  "background_color (caller (fst (default_pixel p q t))) = background_color (caller (fst t))"
  "stream (caller (fst (default_pixel p q t))) = stream (caller (fst t))"
  "runs (fst (default_pixel p q t)) = runs (fst t)"
  "has_foreground (caller (fst (default_pixel p q t))) =
     (has_foreground (caller (fst t)) \<or> (p \<noteq> q \<and> p \<noteq> (0, 0, 0)))"
  "original_colors (fst (default_pixel p q t)) =
     original_colors (fst t) \<union> (if p \<noteq> q then {default_color p q} else {})"
  by (auto simp: default_pixel_def default_color_def Let_def differs_iff split: prod.splits)

lemma default_pixel_counted:
  "counted (fst t) \<Longrightarrow> counted (fst (default_pixel p q t))"
  by (auto simp: default_pixel_def counted_def Let_def differs_iff split: prod.splits)

lemma default_fold_pending:
  "default_pending (fold (\<lambda>x. default_pixel (f x) (g x)) xs (st, line, (c, n))) =
     line @ rle_from c n (map (\<lambda>x. default_color (f x) (g x)) xs)"
proof (induction xs arbitrary: st line c n)
  case Nil
  show ?case by (simp add: default_pending_def)
next
  case (Cons x xs)
  obtain st' where step: "default_pixel (f x) (g x) (st, line, (c, n)) =
      (if c = default_color (f x) (g x) then (st', line, (c, n + 1))
       else (st', (if 0 < n then line @ [(c, n)] else line), (default_color (f x) (g x), 1)))"
    by (simp add: default_pixel_def default_color_def Let_def differs_iff)
  show ?case using Cons.IH [of st'] by (simp add: step)
qed

lemma default_row_runs:
  "runs (default_row bmp_fg bmp_bg width y st) =
     runs st @ [rle_from Rgb18_none 0
                  (map (\<lambda>x. default_color (bmp_fg y x) (bmp_bg y x)) [0..<nat width])]"
proof -
  let ?f = "\<lambda>x. default_pixel (bmp_fg y x) (bmp_bg y x)"
  let ?t = "fold ?f [0..<nat width] (st, [], (Rgb18_none, 0))"
  have "runs (fst ?t) = runs st"
    using fold_frame [of "\<lambda>t. runs (fst t)" ?f "[0..<nat width]" "(st, [], (Rgb18_none, 0))"]
    by simp
  moreover have "default_pending ?t = rle_from Rgb18_none 0
                  (map (\<lambda>x. default_color (bmp_fg y x) (bmp_bg y x)) [0..<nat width])"
    using default_fold_pending [of "bmp_fg y" "bmp_bg y" "[0..<nat width]" st "[]" Rgb18_none 0]
    by simp
  moreover have "runs (default_row bmp_fg bmp_bg width y st) = runs (fst ?t) @ [default_pending ?t]"
    by (simp add: default_row_def case_prod_beta default_pending_def)
  ultimately show ?thesis by (simp only:)
qed

lemma default_row_fields [simp]:
  "background_color (caller (default_row bmp_fg bmp_bg width y st)) = background_color (caller st)"
  "stream (caller (default_row bmp_fg bmp_bg width y st)) = stream (caller st)"
  "has_foreground (caller (default_row bmp_fg bmp_bg width y st)) =
     (has_foreground (caller st) \<or>
      (\<exists>x\<in>set [0..<nat width]. bmp_fg y x \<noteq> bmp_bg y x \<and> bmp_fg y x \<noteq> (0, 0, 0)))"
proof -
  let ?f = "\<lambda>x. default_pixel (bmp_fg y x) (bmp_bg y x)"
  let ?t0 = "(st, [], (Rgb18_none, 0::nat))"
  show "background_color (caller (default_row bmp_fg bmp_bg width y st)) = background_color (caller st)"
    using fold_frame [of "\<lambda>t. background_color (caller (fst t))" ?f "[0..<nat width]" ?t0]
    by (simp add: default_row_def case_prod_beta)
  show "stream (caller (default_row bmp_fg bmp_bg width y st)) = stream (caller st)"
    using fold_frame [of "\<lambda>t. stream (caller (fst t))" ?f "[0..<nat width]" ?t0]
    by (simp add: default_row_def case_prod_beta)
  show "has_foreground (caller (default_row bmp_fg bmp_bg width y st)) =
     (has_foreground (caller st) \<or>
      (\<exists>x\<in>set [0..<nat width]. bmp_fg y x \<noteq> bmp_bg y x \<and> bmp_fg y x \<noteq> (0, 0, 0)))"
    using fold_flag [of "\<lambda>t. has_foreground (caller (fst t))" ?f
        "\<lambda>x. bmp_fg y x \<noteq> bmp_bg y x \<and> bmp_fg y x \<noteq> (0, 0, 0)" "[0..<nat width]" ?t0]
    by (simp add: default_row_def case_prod_beta)
qed

lemma fold_union:
  "(\<And>x s. g (f x s) = g s \<union> e x) \<Longrightarrow> g (fold f xs s) = g s \<union> (\<Union>x\<in>set xs. e x)"
  by (induction xs arbitrary: s) auto

lemma default_row_colors:
  "original_colors (default_row bmp_fg bmp_bg width y st) =
     original_colors st \<union>
     (\<Union>x\<in>set [0..<nat width]. if bmp_fg y x \<noteq> bmp_bg y x
                                then {default_color (bmp_fg y x) (bmp_bg y x)} else {})"
proof -
  let ?f = "\<lambda>x. default_pixel (bmp_fg y x) (bmp_bg y x)"
  let ?t0 = "(st, [], (Rgb18_none, 0::nat))"
  show ?thesis
    using fold_union [of "\<lambda>t. original_colors (fst t)" ?f
        "\<lambda>x. if bmp_fg y x \<noteq> bmp_bg y x then {default_color (bmp_fg y x) (bmp_bg y x)} else {}"
        "[0..<nat width]" ?t0]
    by (simp add: default_row_def case_prod_beta)
qed

lemma default_row_counted: "counted st \<Longrightarrow> counted (default_row bmp_fg bmp_bg width y st)"
proof -
  assume c: "counted st"
  let ?f = "\<lambda>x. default_pixel (bmp_fg y x) (bmp_bg y x)"
  have "counted (fst (fold ?f [0..<nat width] (st, [], (Rgb18_none, 0))))"
    by (rule fold_invariant [where I = "\<lambda>t. counted (fst t)"])
       (simp_all add: default_pixel_counted c)
  then show ?thesis
    by (simp add: default_row_def case_prod_beta counted_def)
qed

lemma default_scan_fields:
  "background_color (caller (default_scan bmp_fg bmp_bg width height s)) = promote (bmp_bg 0 0)"
  "stream (caller (default_scan bmp_fg bmp_bg width height s)) =
     stream s @ [Str ''R6 '', Dec width, Str '' '', Dec height, Str '' '']"
  "has_foreground (caller (default_scan bmp_fg bmp_bg width height s)) =
     (has_foreground s \<or> raises_foreground bmp_fg bmp_bg width height)"
  "runs (default_scan bmp_fg bmp_bg width height s) =
     map (\<lambda>y. rle_from Rgb18_none 0
                 (map (\<lambda>x. default_color (bmp_fg y x) (bmp_bg y x)) [0..<nat width]))
       [0..<nat height]"
  "original_colors (default_scan bmp_fg bmp_bg width height s) =
     foreground_colors bmp_fg bmp_bg width height"
  "counted (default_scan bmp_fg bmp_bg width height s)"
proof -
  let ?f = "default_row bmp_fg bmp_bg width"
  let ?s2 = "(put [Str ''R6 '', Dec width, Str '' '', Dec height, Str '' ''] s)
               \<lparr>background_color := promote (bmp_bg 0 0)\<rparr>"
  let ?st0 = "\<lparr>caller = ?s2, color_counter = 0, original_colors = {}, runs = []\<rparr>"
  have scan: "default_scan bmp_fg bmp_bg width height s = fold ?f [0..<nat height] ?st0"
    by (simp add: default_scan_def Let_def)
  show "background_color (caller (default_scan bmp_fg bmp_bg width height s)) = promote (bmp_bg 0 0)"
    unfolding scan
    using fold_frame [of "\<lambda>st. background_color (caller st)" ?f "[0..<nat height]" ?st0] by simp
  show "stream (caller (default_scan bmp_fg bmp_bg width height s)) =
     stream s @ [Str ''R6 '', Dec width, Str '' '', Dec height, Str '' '']"
    unfolding scan
    using fold_frame [of "\<lambda>st. stream (caller st)" ?f "[0..<nat height]" ?st0] by simp
  show "has_foreground (caller (default_scan bmp_fg bmp_bg width height s)) =
     (has_foreground s \<or> raises_foreground bmp_fg bmp_bg width height)"
    unfolding scan raises_foreground_def
    using fold_flag [of "\<lambda>st. has_foreground (caller st)" ?f
        "\<lambda>y. \<exists>x\<in>set [0..<nat width]. bmp_fg y x \<noteq> bmp_bg y x \<and> bmp_fg y x \<noteq> (0, 0, 0)"
        "[0..<nat height]" ?st0] by simp
  show "runs (default_scan bmp_fg bmp_bg width height s) =
     map (\<lambda>y. rle_from Rgb18_none 0
                 (map (\<lambda>x. default_color (bmp_fg y x) (bmp_bg y x)) [0..<nat width]))
       [0..<nat height]"
    unfolding scan
    using fold_emit [of runs ?f "\<lambda>y. [rle_from Rgb18_none 0
                 (map (\<lambda>x. default_color (bmp_fg y x) (bmp_bg y x)) [0..<nat width])]"
        "[0..<nat height]" ?st0]
    by (simp add: default_row_runs concat_map_singleton)
  show "original_colors (default_scan bmp_fg bmp_bg width height s) =
     foreground_colors bmp_fg bmp_bg width height"
    unfolding scan foreground_colors_def
    using fold_union [of original_colors ?f
        "\<lambda>y. \<Union>x\<in>set [0..<nat width]. if bmp_fg y x \<noteq> bmp_bg y x
                                then {default_color (bmp_fg y x) (bmp_bg y x)} else {}"
        "[0..<nat height]" ?st0]
    by (simp add: default_row_colors)
  show "counted (default_scan bmp_fg bmp_bg width height s)"
    unfolding scan
  proof (rule fold_invariant [where I = counted])
    show "counted ?st0" by (simp add: counted_def)
  qed (rule default_row_counted)
qed

section \<open>The second phase of the default quantizer\<close>

lemma fold_put_if:
  "fold (\<lambda>x s. if P x then put (e x) s else s) xs s0 = put (concat (map e (filter P xs))) s0"
proof (induction xs arbitrary: s0)
  case Nil
  show ?case by (simp add: put_def)
next
  case (Cons x xs)
  then show ?case by (simp add: put_put)
qed

lemma output_palette_eq:
  "output_palette counter quantized s =
     put (if counter = 0 then [Dec 1, Endl, Str [CHR 0xff, CHR 0xff, CHR 0xff]]
          else [Dec (int counter), Endl] @
               map palette_entry (filter (\<lambda>color. color \<in> quantized) all_colors)) s"
proof -
  have "\<And>s0. fold (\<lambda>color s'. if color \<in> quantized then put [palette_entry color] s' else s')
          all_colors s0 =
        put (map palette_entry (filter (\<lambda>color. color \<in> quantized) all_colors)) s0"
    using fold_put_if [of "\<lambda>color. color \<in> quantized" "\<lambda>color. [palette_entry color]" all_colors]
    by (simp add: concat_map_singleton)
  then show ?thesis
    unfolding output_palette_def palette_entry_def [symmetric] by (simp add: put_put)
qed

lemma output_runs_eq:
  "output_runs cmap rs s = put (concat (map (map (default_item cmap)) rs)) s"
proof -
  have row: "\<And>line. fold (\<lambda>run. put [default_item cmap run]) line
                = put (map (default_item cmap) line)"
    using fold_put [of "\<lambda>run. [default_item cmap run]"] by (simp add: concat_map_singleton)
  have "output_runs cmap rs = fold (\<lambda>line. put (map (default_item cmap) line)) rs"
    unfolding output_runs_def default_item_def [symmetric] row ..
  then show ?thesis by (simp add: fold_put)
qed

lemma DefaultQuantizer_cases:
  assumes "out_fg \<noteq> out_bg"
    and "DefaultQuantizer max_fg_colors pixmap_of out_fg out_bg width height s = Inr s'"
  obtains divisor counter qc cmap where
    "palette_search max_fg_colors
       (original_colors (default_scan (pixmap_of out_fg) (pixmap_of out_bg) width height s))
       (color_counter (default_scan (pixmap_of out_fg) (pixmap_of out_bg) width height s)) 4 {}
     = Inr (divisor, counter, qc)"
    and "make_color_map divisor
       (original_colors (default_scan (pixmap_of out_fg) (pixmap_of out_bg) width height s))
       (if divisor = 4
        then original_colors (default_scan (pixmap_of out_fg) (pixmap_of out_bg) width height s)
        else qc) = Inr cmap"
    and "s' = output_runs cmap
           (runs (default_scan (pixmap_of out_fg) (pixmap_of out_bg) width height s))
           (output_palette counter
              (if divisor = 4
               then original_colors (default_scan (pixmap_of out_fg) (pixmap_of out_bg) width height s)
               else qc)
              (caller (default_scan (pixmap_of out_fg) (pixmap_of out_bg) width height s)))"
  using assms
  by (auto simp: DefaultQuantizer_def Let_def split: sum.splits prod.splits if_splits)

lemma DefaultQuantizer_fields:
  assumes "out_fg \<noteq> out_bg"
    and "DefaultQuantizer max_fg_colors pixmap_of out_fg out_bg width height s = Inr s'"
  shows "background_color s' = promote (pixmap_of out_bg 0 0)"
    and "has_foreground s' =
      (has_foreground s \<or> raises_foreground (pixmap_of out_fg) (pixmap_of out_bg) width height)"
  using assms
  by (auto elim!: DefaultQuantizer_cases simp: output_runs_eq output_palette_eq default_scan_fields)

lemma number_colors_absent:
  "\<forall>c\<in>set cs. c \<notin> present \<Longrightarrow> number_colors present cs t = t"
  by (induction cs arbitrary: t) (auto simp: number_colors_def)

lemma rle_from_replicate: "0 < n \<Longrightarrow> rle_from c 0 (replicate n c) = [(c, n)]"
proof -
  have "\<And>k. rle_from c k (replicate n c) = (if 0 < k + n then [(c, k + n)] else [])"
    by (induction n) auto
  then show "0 < n \<Longrightarrow> rle_from c 0 (replicate n c) = [(c, n)]" by simp
qed

lemma concat_map_replicate_single:
  "concat (map (map f) (replicate n [r])) = replicate n (f r)"
  by (induction n) simp_all

lemma no_foreground_colors:
  assumes "\<forall>y\<in>set [0..<nat height]. \<forall>x\<in>set [0..<nat width]. bmp_fg y x = bmp_bg y x"
  shows "foreground_colors bmp_fg bmp_bg width height = {}"
    and "map (\<lambda>y. rle_from Rgb18_none 0
                 (map (\<lambda>x. default_color (bmp_fg y x) (bmp_bg y x)) [0..<nat width]))
           [0..<nat height] =
         map (\<lambda>y. rle_from Rgb18_none 0 (replicate (nat width) Rgb18_none)) [0..<nat height]"
proof -
  show "foreground_colors bmp_fg bmp_bg width height = {}"
    using assms by (auto simp: foreground_colors_def)
  have "\<And>y. y \<in> set [0..<nat height] \<Longrightarrow>
      map (\<lambda>x. default_color (bmp_fg y x) (bmp_bg y x)) [0..<nat width] =
      replicate (nat width) Rgb18_none"
  proof -
    fix y assume "y \<in> set [0..<nat height]"
    then have "map (\<lambda>x. default_color (bmp_fg y x) (bmp_bg y x)) [0..<nat width] =
        map (\<lambda>x. Rgb18_none) [0..<nat width]"
      using assms by (intro map_cong) (auto simp: default_color_def)
    then show "map (\<lambda>x. default_color (bmp_fg y x) (bmp_bg y x)) [0..<nat width] =
        replicate (nat width) Rgb18_none"
      by (simp add: map_replicate_const)
  qed
  then show "map (\<lambda>y. rle_from Rgb18_none 0
                 (map (\<lambda>x. default_color (bmp_fg y x) (bmp_bg y x)) [0..<nat width]))
           [0..<nat height] =
         map (\<lambda>y. rle_from Rgb18_none 0 (replicate (nat width) Rgb18_none)) [0..<nat height]"
    by (simp del: set_upt)
qed

lemma DefaultQuantizer_no_foreground:
  assumes distinct: "out_fg \<noteq> out_bg" and w: "0 < width"
    and same: "\<forall>y\<in>set [0..<nat height]. \<forall>x\<in>set [0..<nat width].
                 pixmap_of out_fg y x = pixmap_of out_bg y x"
  shows "\<exists>s'. DefaultQuantizer max_fg_colors pixmap_of out_fg out_bg width height s = Inr s' \<and>
     stream s' = stream s @
              [Str ''R6 '', Dec width, Str '' '', Dec height, Str '' '',
               Dec 1, Endl, Str [CHR 0xff, CHR 0xff, CHR 0xff]] @
              replicate (nat height) (write_uint32 (run_word 0xfff (word_of_int width)))"
proof -
  let ?st = "default_scan (pixmap_of out_fg) (pixmap_of out_bg) width height s"
  let ?m0 = "Map.empty(- 1 \<mapsto> 0xfff) :: color_map"
  have orig: "original_colors ?st = {}"
    using no_foreground_colors(1) [OF same] by (simp add: default_scan_fields)
  have cnt: "color_counter ?st = 0"
    using default_scan_fields(6) [of "pixmap_of out_fg" "pixmap_of out_bg" width height s] orig
    by (simp add: counted_def)
  have rs: "runs ?st = replicate (nat height) [(Rgb18_none, nat width)]"
    using no_foreground_colors(2) [OF same] w
    by (simp add: default_scan_fields rle_from_replicate map_replicate_const)
  have search: "palette_search max_fg_colors {} 0 4 {} = Inr (4, 0, {})"
    by (simp add: palette_search.simps)
  have cmap: "make_color_map 4 {} {} = Inr ?m0"
    by (simp add: make_color_map_def number_colors_absent)
  have item: "default_item ?m0 (Rgb18_none, nat width) = write_uint32 (run_word 0xfff (word_of_int width))"
    using w by (simp add: default_item_def lookup0_def Rgb18_none_def)
  have res: "DefaultQuantizer max_fg_colors pixmap_of out_fg out_bg width height s =
      Inr (output_runs ?m0 (runs ?st) (output_palette 0 {} (caller ?st)))"
    using distinct by (simp add: DefaultQuantizer_def Let_def orig cnt search cmap)
  have "concat (map (map (default_item ?m0)) (replicate (nat height) [(Rgb18_none, nat width)])) =
      replicate (nat height) (write_uint32 (run_word 0xfff (word_of_int width)))"
    by (simp only: item concat_map_replicate_single)
  then have "stream (output_runs ?m0 (runs ?st) (output_palette 0 {} (caller ?st))) =
      stream s @ [Str ''R6 '', Dec width, Str '' '', Dec height, Str '' '',
               Dec 1, Endl, Str [CHR 0xff, CHR 0xff, CHR 0xff]] @
              replicate (nat height) (write_uint32 (run_word 0xfff (word_of_int width)))"
    by (simp add: output_runs_eq output_palette_eq rs default_scan_fields(2))
  with res show ?thesis by simp
qed

section \<open>Flags and colour keys\<close>

lemma mask_fold_has_background:
  "has_background (fold (\<lambda>x. mask_pixel (f x) (g x)) xs s) =
     (has_background s \<or> (\<exists>x\<in>set xs. background_color s \<noteq> promote (g x))) \<and>
   background_color (fold (\<lambda>x. mask_pixel (f x) (g x)) xs s) = background_color s"
proof (induction xs arbitrary: s)
  case Nil
  show ?case by simp
next
  case (Cons x xs)
  have "has_background (mask_pixel (f x) (g x) s) =
      (has_background s \<or> background_color s \<noteq> promote (g x))"
    by (auto simp: mask_pixel_def Let_def)
  then show ?case using Cons [of "mask_pixel (f x) (g x) s"] by auto
qed

lemma MaskQuantizer_has_background:
  assumes "out_fg \<noteq> out_bg"
  shows "has_background (MaskQuantizer pixmap_of out_fg out_bg width height s) =
     (has_background s \<or>
      (\<exists>y\<in>set [0..<nat height]. \<exists>x\<in>set [0..<nat width].
          background_color s \<noteq> promote (pixmap_of out_bg y x)))"
proof -
  let ?row = "\<lambda>y. fold (\<lambda>x. mask_pixel (pixmap_of out_fg y x) (pixmap_of out_bg y x)) [0..<nat width]"
  have "\<And>ys s0. has_background (fold ?row ys s0) =
     (has_background s0 \<or> (\<exists>y\<in>set ys. \<exists>x\<in>set [0..<nat width].
          background_color s0 \<noteq> promote (pixmap_of out_bg y x))) \<and>
     background_color (fold ?row ys s0) = background_color s0"
  proof -
    fix ys s0
    show "has_background (fold ?row ys s0) =
     (has_background s0 \<or> (\<exists>y\<in>set ys. \<exists>x\<in>set [0..<nat width].
          background_color s0 \<noteq> promote (pixmap_of out_bg y x))) \<and>
     background_color (fold ?row ys s0) = background_color s0"
    proof (induction ys arbitrary: s0)
      case Nil
      show ?case by simp
    next
      case (Cons y ys)
      show ?case
        using Cons [of "?row y s0"]
          mask_fold_has_background [of "pixmap_of out_fg y" "pixmap_of out_bg y" "[0..<nat width]" s0]
        by auto
    qed
  qed
  then show ?thesis using assms by (simp add: MaskQuantizer_def Let_def)
qed





section \<open>Arithmetic of the colour key\<close>

lemma component_range: "0 \<le> component val i \<and> component val i < 256"
proof -
  let ?a = "(push_bit 2 (drop_bit (6 * i) val)) AND 0xff"
  let ?b = "(drop_bit (6 * i + 4) val) AND 3"
  have a: "0 \<le> ?a" "?a < 2 ^ 8" by (simp_all add: AND_upper2'')
  have b: "0 \<le> ?b" "?b < 2 ^ 8" by (simp_all add: AND_upper2'')
  have "?a OR ?b < 2 ^ 8" using a b by (intro OR_upper) simp_all
  moreover have "0 \<le> ?a OR ?b" using a b by simp
  ultimately show ?thesis by (simp add: component_def)
qed

lemma Rgb18_arith:
  assumes "0 \<le> r" "r < 256" "0 \<le> g" "g < 256" "0 \<le> b" "b < 256"
  shows "Rgb18 r g b = r div 4 + 64 * (g div 4) + 4096 * (b div 4)"
proof -
  have r: "take_bit 6 (r div 4) = r div 4"
    using assms by (simp add: take_bit_int_eq_self)
  have g: "take_bit 6 (g div 4) = g div 4"
    using assms by (simp add: take_bit_int_eq_self)
  have "Rgb18 r g b = concat_bit 6 (r div 4) (concat_bit 6 (g div 4) (b div 4))"
    using r g
    by (simp add: Rgb18_def concat_bit_def drop_bit_eq_div push_bit_or ac_simps
          del: take_bit_int_eq_self)
  also have "\<dots> = r div 4 + 64 * (g div 4) + 4096 * (b div 4)"
    using r g by (simp add: concat_bit_eq push_bit_eq_mult del: take_bit_int_eq_self)
  finally show ?thesis .
qed

lemma Rgb18_range:
  assumes "0 \<le> r" "r < 256" "0 \<le> g" "g < 256" "0 \<le> b" "b < 256"
  shows "0 \<le> Rgb18 r g b \<and> Rgb18 r g b \<le> 262143"
proof -
  have "r div 4 \<le> 63" "g div 4 \<le> 63" "b div 4 \<le> 63" "0 \<le> r div 4" "0 \<le> g div 4" "0 \<le> b div 4"
    using assms by simp_all
  then show ?thesis unfolding Rgb18_arith [OF assms] by linarith
qed

lemma ceiling_256: "0 < k \<Longrightarrow> (256 + k - 1) sdiv k = \<lceil>256 / real_of_int k\<rceil>"
proof -
  assume k: "0 < k"
  have "\<lceil>256 / real_of_int k\<rceil> = - ((- 256) div k)"
    using ceiling_divide_eq_div [of 256 k, where ?'a = real] by simp
  also have "\<dots> = (if 256 mod k = 0 then 256 div k else 256 div k + 1)"
    using k zdiv_zminus1_eq_if [of k 256] by simp
  also have "\<dots> = (256 + (k - 1)) div k"
  proof -
    have "(256 + (k - 1)) div k = 256 div k + (k - 1) div k + (256 mod k + (k - 1) mod k) div k"
      by (rule div_add1_eq)
    moreover have "(k - 1) div k = 0" using k by (intro div_pos_pos_trivial) simp_all
    moreover have "(k - 1) mod k = k - 1" using k by (intro mod_pos_pos_trivial) simp_all
    moreover have "(256 mod k + (k - 1)) div k = (if 256 mod k = 0 then 0 else 1)"
    proof (cases "256 mod k = 0")
      case True
      then show ?thesis using k by simp
    next
      case False
      have "0 \<le> 256 mod k" "256 mod k < k"
        using k by (rule pos_mod_sign, rule pos_mod_bound)
      with False have "0 < 256 mod k" "256 mod k < k" by linarith+
      then have "(256 mod k + (k - 1)) div k = 1"
        by (intro int_div_pos_eq [where r = "256 mod k - 1"]) auto
      then show ?thesis using False by simp
    qed
    ultimately show ?thesis by simp
  qed
  finally show ?thesis using k by (simp add: sdiv_nonneg algebra_simps)
qed

lemma reduce_width: "0 < k \<Longrightarrow> k \<le> 255 \<Longrightarrow> 2 \<le> (256 + k - 1) sdiv (k::int)"
proof -
  assume k: "0 < k" "k \<le> 255"
  have "2 * k div k \<le> (255 + k) div k"
    using k by (intro zdiv_mono1) simp_all
  then show ?thesis using k by (simp add: sdiv_nonneg)
qed

lemma reduce_width_upper: "0 < k \<Longrightarrow> (256 + k - 1) sdiv (k::int) \<le> 256"
proof -
  assume k: "0 < k"
  have "(255 + k) div k \<le> (256 * k) div k"
    using k by (intro zdiv_mono1) simp_all
  then show ?thesis using k by (simp add: sdiv_nonneg)
qed

lemma reduce_not_fault: "0 < k \<Longrightarrow> k \<le> 255 \<Longrightarrow> \<not> reduce_fault k"
  using reduce_width [of k] by (simp add: reduce_fault_def)

lemma reduce_component_div:
  assumes k: "0 < k" "k \<le> 255" and v: "0 \<le> v"
  shows "reduce_component v k =
     (255 * ((v * ((256 + k - 1) sdiv k)) div 256)) div ((256 + k - 1) sdiv k - 1)"
proof -
  define c where "c = (256 + k - 1) sdiv k"
  have c: "2 \<le> c" using reduce_width [OF k] by (simp add: c_def)
  have vc: "0 \<le> v * c" using v c by simp
  have m: "(v * c) sdiv 256 = (v * c) div 256" using vc by (intro sdiv_nonneg) simp_all
  have m0: "0 \<le> 255 * ((v * c) div 256)" using vc by (simp add: pos_imp_zdiv_nonneg_iff)
  have r: "(255 * ((v * c) div 256)) sdiv (c - 1) = (255 * ((v * c) div 256)) div (c - 1)"
    using m0 c by (intro sdiv_nonneg) simp_all
  have "reduce_component v k = ((256 - 1) * ((v * c) sdiv 256)) sdiv (c - 1)"
    unfolding reduce_component_def Let_def c_def ..
  then show ?thesis unfolding m using r by (simp add: c_def)
qed

lemma reduce_component_range:
  assumes k: "0 < k" "k \<le> 255" and v: "0 \<le> v" "v < 256"
  shows "0 \<le> reduce_component v k \<and> reduce_component v k < 256"
proof -
  define c where "c = (256 + k - 1) sdiv k"
  define m where "m = (v * c) div 256"
  have c: "2 \<le> c" "c \<le> 256"
    using reduce_width [OF k] reduce_width_upper [OF k(1)] by (simp_all add: c_def)
  have vc: "0 \<le> v * c" using v c by simp
  have "v * c \<le> 255 * c" using v c by (intro mult_right_mono) simp_all
  then have "v * c < 256 * c" using c by linarith
  moreover have "256 * m + (v * c) mod 256 = v * c" by (simp add: m_def)
  moreover have "0 \<le> (v * c) mod 256" by simp
  ultimately have "m < c" by linarith
  moreover have m0: "0 \<le> m" unfolding m_def using vc by (simp add: pos_imp_zdiv_nonneg_iff)
  ultimately have "255 * m \<le> 255 * (c - 1)" by simp
  then have "(255 * m) div (c - 1) \<le> (255 * (c - 1)) div (c - 1)"
    using c by (intro zdiv_mono1) simp_all
  moreover have "(255 * (c - 1)) div (c - 1) = 255"
    using c by (intro nonzero_mult_div_cancel_right) simp
  ultimately have hi: "(255 * m) div (c - 1) \<le> 255" by (simp only:)
  have lo: "0 \<le> (255 * m) div (c - 1)"
    using m0 c by (simp add: pos_imp_zdiv_nonneg_iff)
  have "reduce_component v k = (255 * m) div (c - 1)"
    using reduce_component_div [OF k v(1)] by (simp add: c_def m_def)
  then show ?thesis using hi lo by simp
qed

lemma reduce_component_floor:
  assumes k: "0 < k" "k \<le> 255" and v: "0 \<le> v"
  shows "reduce_component v k =
     \<lfloor>255 * real_of_int \<lfloor>real_of_int v * real_of_int \<lceil>256 / real_of_int k\<rceil> / 256\<rfloor>
        / real_of_int (\<lceil>256 / real_of_int k\<rceil> - 1)\<rfloor>"
proof -
  define c where "c = (256 + k - 1) sdiv k"
  have cc: "\<lceil>256 / real_of_int k\<rceil> = c"
    using ceiling_256 [OF k(1)] by (simp add: c_def)
  have c: "2 \<le> c" using reduce_width [OF k] by (simp add: c_def)
  have vc: "0 \<le> v * c" using v c by simp
  have m: "\<lfloor>real_of_int v * real_of_int c / 256\<rfloor> = (v * c) div 256"
    using floor_divide_of_int_eq [of "v * c" 256, where ?'a = real] by simp
  have m0: "0 \<le> (v * c) div 256" using vc by (simp add: pos_imp_zdiv_nonneg_iff)
  have r: "\<lfloor>255 * real_of_int ((v * c) div 256) / real_of_int (c - 1)\<rfloor> =
      (255 * ((v * c) div 256)) div (c - 1)"
    using floor_divide_of_int_eq [of "255 * ((v * c) div 256)" "c - 1", where ?'a = real] by simp
  have "reduce_component v k = (255 * ((v * c) div 256)) div (c - 1)"
    using reduce_component_div [OF k v] by (simp add: c_def)
  then show ?thesis unfolding cc m r .
qed

section \<open>The palette search\<close>

lemma reduce_ok: "\<not> reduce_fault k \<Longrightarrow> reduce color k \<in> Inr ` reduced_colors k {color}"
  by (simp add: reduce_def reduced_colors_def)

lemma count_reduced_ok:
  "\<not> reduce_fault k \<Longrightarrow> \<exists>q' n'. count_reduced maxc k orig cs q n = Inr (q', n')"
  by (induction cs arbitrary: q n) (auto simp: reduce_def)

lemma count_reduced_card:
  "count_reduced maxc k orig cs q n = Inr (q', n') \<Longrightarrow> finite q \<Longrightarrow> n = card q \<Longrightarrow>
     finite q' \<and> n' = card q'"
proof (induction cs arbitrary: q n)
  case Nil
  then show ?case by auto
next
  case (Cons c cs)
  show ?case
  proof (cases "c \<in> orig")
    case False
    then show ?thesis using Cons by simp
  next
    case True
    show ?thesis
    proof (cases "reduce c k")
      case (Inl e)
      then show ?thesis using Cons.prems True by simp
    next
      case (Inr r)
      show ?thesis
      proof (cases "r \<in> q")
        case True
        then show ?thesis using Cons \<open>c \<in> orig\<close> Inr by simp
      next
        case False
        have step: "finite (insert r q)" "n + 1 = card (insert r q)"
          using False Cons.prems by simp_all
        show ?thesis
        proof (cases "n + 1 > maxc")
          case True
          then show ?thesis using Cons.prems \<open>c \<in> orig\<close> Inr False step by auto
        next
          case nb: False
          then have "count_reduced maxc k orig cs (insert r q) (n + 1) = Inr (q', n')"
            using Cons.prems(1) \<open>c \<in> orig\<close> Inr False by simp
          then show ?thesis using Cons.IH [of "insert r q" "n + 1"] step by simp
        qed
      qed
    qed
  qed
qed

lemma count_reduced_subset:
  "count_reduced maxc k orig cs q n = Inr (q', n') \<Longrightarrow>
     q' \<subseteq> q \<union> reduced_colors k (orig \<inter> set cs)"
proof (induction cs arbitrary: q n)
  case Nil
  then show ?case by simp
next
  case (Cons c cs)
  have mono: "reduced_colors k (orig \<inter> set cs) \<subseteq> reduced_colors k (orig \<inter> set (c # cs))"
    by (auto simp: reduced_colors_def)
  show ?case
  proof (cases "c \<in> orig")
    case False
    then show ?thesis using Cons mono by auto
  next
    case True
    show ?thesis
    proof (cases "reduce c k")
      case (Inl e)
      then show ?thesis using Cons.prems True by simp
    next
      case (Inr r)
      then have r: "r \<in> reduced_colors k (orig \<inter> set (c # cs))"
        using True by (auto simp: reduce_def reduced_colors_def split: if_splits)
      show ?thesis
      proof (cases "r \<in> q")
        case True
        then show ?thesis using Cons \<open>c \<in> orig\<close> Inr mono by auto
      next
        case False
        show ?thesis
        proof (cases "n + 1 > maxc")
          case True
          then show ?thesis using Cons.prems \<open>c \<in> orig\<close> Inr False r by auto
        next
          case nb: False
          then have "count_reduced maxc k orig cs (insert r q) (n + 1) = Inr (q', n')"
            using Cons.prems(1) \<open>c \<in> orig\<close> Inr False by simp
          then have "q' \<subseteq> insert r q \<union> reduced_colors k (orig \<inter> set cs)"
            by (rule Cons.IH)
          then show ?thesis using r mono by auto
        qed
      qed
    qed
  qed
qed

lemma reduce_component_halves:
  assumes "0 \<le> v" "v < 256"
  shows "reduce_component v 128 \<in> {0, 255}"
proof -
  have c: "(256 + 128 - 1) sdiv (128::int) = 2" by (simp add: sdiv_nonneg)
  have "reduce_component v 128 = (255 * ((v * 2) div 256)) div 1"
    using reduce_component_div [of 128 v] assms c by simp
  moreover have "(v * 2) div 256 \<in> {0, 1}"
  proof -
    have "0 \<le> (v * 2) div 256" using assms by (simp add: pos_imp_zdiv_nonneg_iff)
    moreover have "(v * 2) div 256 \<le> 510 div 256"
      using assms by (intro zdiv_mono1) simp_all
    ultimately show ?thesis by auto
  qed
  ultimately show ?thesis by auto
qed

lemma reduced_colors_128:
  "reduced_colors 128 present \<subseteq> (\<lambda>(r, g, b). Rgb18 r g b) ` ({0, 255} \<times> {0, 255} \<times> {0, 255})"
proof
  fix x assume "x \<in> reduced_colors 128 present"
  then obtain color where x: "x = Rgb18 (reduce_component (component color 0) 128)
                      (reduce_component (component color 1) 128)
                      (reduce_component (component color 2) 128)"
    by (auto simp: reduced_colors_def)
  have h: "\<And>i. reduce_component (component color i) 128 \<in> {0, 255}"
    using component_range [of color] by (intro reduce_component_halves) simp_all
  have "(reduce_component (component color 0) 128, reduce_component (component color 1) 128,
         reduce_component (component color 2) 128) \<in> {0, 255} \<times> {0, 255} \<times> {0, 255}"
    using h [of 0] h [of 1] h [of 2] by blast
  then show "x \<in> (\<lambda>(r, g, b). Rgb18 r g b) ` ({0, 255} \<times> {0, 255} \<times> {0, 255})"
    unfolding x by (rule rev_image_eqI) simp
qed

lemma count_reduced_128:
  assumes "count_reduced maxc 128 orig cs {} 0 = Inr (q, n)"
  shows "n \<le> 8"
proof -
  let ?S = "(\<lambda>(r, g, b). Rgb18 r g b) ` ({0::int, 255} \<times> {0::int, 255} \<times> {0::int, 255})"
  have fin: "finite ?S" by simp
  have "card ?S \<le> card ({0::int, 255} \<times> {0::int, 255} \<times> {0::int, 255})"
    by (rule card_image_le) simp
  then have c8: "card ?S \<le> 8" by (simp add: card_cartesian_product)
  have "q \<subseteq> reduced_colors 128 (orig \<inter> set cs)"
    using count_reduced_subset [OF assms] by simp
  then have "q \<subseteq> ?S" using reduced_colors_128 by blast
  then have "card q \<le> card ?S" using fin by (intro card_mono)
  moreover have "n = card q" using count_reduced_card [OF assms] by simp
  ultimately show ?thesis using c8 by simp
qed

lemma palette_search_converges:
  "8 \<le> maxc \<Longrightarrow> 4 \<le> d \<Longrightarrow> d \<le> 128 \<Longrightarrow> (maxc < cc \<longrightarrow> d < 128) \<Longrightarrow>
     \<exists>d' n q. palette_search maxc orig cc d q0 = Inr (d', n, q) \<and> d \<le> d' \<and> d' \<le> 128 \<and> n \<le> maxc"
proof (induction maxc orig cc d q0 rule: palette_search.induct)
  case (1 maxc orig cc d q0)
  show ?case
  proof (cases "maxc < cc")
    case False
    then show ?thesis using 1(4) by (simp add: palette_search.simps)
  next
    case True
    then have d: "d < 128" using 1(5) by simp
    then have "\<not> reduce_fault (d + 1)" using 1(3) by (intro reduce_not_fault) simp_all
    then obtain q n where res: "count_reduced maxc (d + 1) orig all_colors {} 0 = Inr (q, n)"
      using count_reduced_ok by blast
    have "maxc < n \<longrightarrow> d + 1 < 128"
    proof
      assume big: "maxc < n"
      show "d + 1 < 128"
      proof (rule ccontr)
        assume "\<not> d + 1 < 128"
        then have "d + 1 = 128" using d by simp
        then have "n \<le> 8" using res count_reduced_128 by simp
        then show False using big 1(2) by simp
      qed
    qed
    then obtain d' n' q' where
      "palette_search maxc orig n (d + 1) q = Inr (d', n', q')" "d + 1 \<le> d'" "d' \<le> 128" "n' \<le> maxc"
      using 1(1) [OF True res refl] 1(2) 1(3) d by auto
    then show ?thesis using True res by (simp add: palette_search.simps)
  qed
qed

section \<open>Black and white under every divisor\<close>

lemma count_reduced_skip:
  "\<forall>c\<in>set xs. c \<notin> orig \<Longrightarrow>
     count_reduced maxc k orig (xs @ ys) q n = count_reduced maxc k orig ys q n"
  by (induction xs) simp_all

lemma all_colors_split: "all_colors = 0 # ([1..262142] @ [262143])"
proof -
  have "[0..262143] = 0 # [0 + 1..262143]" by (rule upto_rec1) simp
  moreover have "[1..262143] = [1..262143 - 1] @ [262143]" by (rule upto_rec2) simp
  ultimately show ?thesis by (simp add: all_colors_def)
qed

lemma reduce_black: "0 < k \<Longrightarrow> k \<le> 255 \<Longrightarrow> reduce 0 k = Inr 0"
proof -
  assume k: "0 < k" "k \<le> 255"
  have "reduce_component 0 k = 0"
    using reduce_component_div [OF k, of 0] by simp
  then show ?thesis
    using reduce_not_fault [OF k] by (simp add: reduce_def component_def Rgb18_def)
qed

lemma reduce_white: "0 < k \<Longrightarrow> k \<le> 255 \<Longrightarrow> reduce 262143 k = Inr 262143"
proof -
  assume k: "0 < k" "k \<le> 255"
  define c where "c = (256 + k - 1) sdiv k"
  have c: "2 \<le> c" "c \<le> 256"
    using reduce_width [OF k] reduce_width_upper [OF k(1)] by (simp_all add: c_def)
  have "(255 * c) div 256 = c - 1"
    using c by (intro int_div_pos_eq [where r = "256 - c"]) simp_all
  moreover have "(255 * (c - 1)) div (c - 1) = 255"
    using c by (intro nonzero_mult_div_cancel_right) simp
  ultimately have rc: "reduce_component 255 k = 255"
    using reduce_component_div [OF k, of 255] by (simp add: c_def)
  have comp: "component 262143 0 = 255" "component 262143 (Suc 0) = 255" "component 262143 2 = 255"
    by (simp_all add: component_def drop_bit_eq_div push_bit_eq_mult)
  have "Rgb18 255 255 255 = 262143" by (simp add: Rgb18_arith)
  then show ?thesis
    using reduce_not_fault [OF k] by (simp add: reduce_def comp rc)
qed

lemma black_white_pass:
  assumes k: "0 < k" "k \<le> 255"
  shows "count_reduced 1 k {0, 262143} all_colors {} 0 = Inr ({262143, 0}, 2)"
proof -
  have skip: "\<forall>c\<in>set [1..262142]. c \<notin> {0, 262143::int}" by auto
  show ?thesis
    unfolding all_colors_split
    using count_reduced_skip [OF skip, of 1 k "[262143]"]
    by (simp add: reduce_black [OF k] reduce_white [OF k])
qed

lemma black_white_fault:
  "count_reduced 1 256 {0, 262143} all_colors {} 0 = Inl DivisionByZero"
  unfolding all_colors_split using reduce_fault_large [of 256]
  by (simp add: reduce_def)

lemma black_white_search:
  "4 \<le> d \<Longrightarrow> d \<le> 255 \<Longrightarrow> palette_search 1 {0, 262143} 2 d q = Inl DivisionByZero"
proof (induction "nat (255 - d)" arbitrary: d q)
  case 0
  then have "d = 255" by simp
  then show ?case using black_white_fault by (simp add: palette_search.simps)
next
  case (Suc m)
  then have d: "d + 1 \<le> 255" "0 < d + 1" "4 \<le> d + 1" "m = nat (255 - (d + 1))" by simp_all
  have "palette_search 1 {0, 262143} 2 d q = palette_search 1 {0, 262143} 2 (d + 1) {262143, 0}"
    using black_white_pass [OF d(2) d(1)]
    by (subst palette_search.simps) simp
  then show ?case using Suc(1) [OF d(4) d(3) d(1)] by simp
qed

section \<open>The final palette and the colour map\<close>

lemma palette_search_result:
  "palette_search maxc orig cc d q0 = Inr (d', n, q) \<Longrightarrow>
     n \<le> maxc \<and>
     (d' = d \<and> n = cc \<and> q = q0 \<or>
      d < d' \<and> maxc < cc \<and> count_reduced maxc d' orig all_colors {} 0 = Inr (q, n))"
proof (induction maxc orig cc d q0 rule: palette_search.induct)
  case (1 maxc orig cc d q0)
  show ?case
  proof (cases "maxc < cc")
    case False
    then show ?thesis using 1(2) by (simp add: palette_search.simps)
  next
    case True
    then obtain q1 n1 where res: "count_reduced maxc (d + 1) orig all_colors {} 0 = Inr (q1, n1)"
      and rec: "palette_search maxc orig n1 (d + 1) q1 = Inr (d', n, q)"
      using 1(2) by (subst (asm) palette_search.simps) (auto split: sum.splits)
    from 1(1) [OF True res refl rec] res True show ?thesis by auto
  qed
qed

lemma count_reduced_complete:
  "count_reduced maxc k orig cs q n = Inr (q', n') \<Longrightarrow> n' \<le> maxc \<Longrightarrow>
     q' = q \<union> reduced_colors k (orig \<inter> set cs)"
proof (induction cs arbitrary: q n)
  case Nil
  then show ?case by (simp add: reduced_colors_def)
next
  case (Cons c cs)
  show ?case
  proof (cases "c \<in> orig")
    case False
    then have "orig \<inter> set (c # cs) = orig \<inter> set cs" by auto
    then show ?thesis using Cons False by simp
  next
    case True
    then have split: "reduced_colors k (orig \<inter> set (c # cs)) =
        reduced_colors k {c} \<union> reduced_colors k (orig \<inter> set cs)"
      by (auto simp: reduced_colors_def)
    show ?thesis
    proof (cases "reduce c k")
      case (Inl e)
      then show ?thesis using Cons.prems True by simp
    next
      case (Inr r)
      then have r: "reduced_colors k {c} = {r}"
        by (auto simp: reduce_def reduced_colors_def split: if_splits)
      show ?thesis
      proof (cases "r \<in> q")
        case True
        then have "count_reduced maxc k orig cs q n = Inr (q', n')"
          using Cons.prems(1) \<open>c \<in> orig\<close> Inr by simp
        then have "q' = q \<union> reduced_colors k (orig \<inter> set cs)"
          using Cons.IH Cons.prems(2) by blast
        then show ?thesis using True split r by auto
      next
        case False
        show ?thesis
        proof (cases "n + 1 > maxc")
          case True
          then have "n' = n + 1" using Cons.prems(1) \<open>c \<in> orig\<close> Inr False by simp
          then show ?thesis using True Cons.prems(2) by simp
        next
          case nb: False
          then have "count_reduced maxc k orig cs (insert r q) (n + 1) = Inr (q', n')"
            using Cons.prems(1) \<open>c \<in> orig\<close> Inr False by simp
          then have "q' = insert r q \<union> reduced_colors k (orig \<inter> set cs)"
            using Cons.IH Cons.prems(2) by blast
          then show ?thesis using split r by auto
        qed
      qed
    qed
  qed
qed

lemma count_reduced_no_fault:
  "count_reduced maxc k orig cs q n = Inr r \<Longrightarrow> \<exists>c\<in>set cs. c \<in> orig \<Longrightarrow> \<not> reduce_fault k"
  by (induction cs arbitrary: q n) (auto simp: reduce_def split: if_splits sum.splits)

lemma all_colors_facts:
  "sorted all_colors" "distinct all_colors" "set all_colors = {0..262143}"
  by (simp_all add: all_colors_def)

lemma palette_list:
  assumes "P \<subseteq> {0..262143}"
  shows "sorted (filter (\<lambda>c. c \<in> P) all_colors)"
    and "distinct (filter (\<lambda>c. c \<in> P) all_colors)"
    and "set (filter (\<lambda>c. c \<in> P) all_colors) = P"
    and "length (filter (\<lambda>c. c \<in> P) all_colors) = card P"
proof -
  show "sorted (filter (\<lambda>c. c \<in> P) all_colors)"
    using all_colors_facts(1) by (rule sorted_wrt_filter)
  show d: "distinct (filter (\<lambda>c. c \<in> P) all_colors)"
    using all_colors_facts(2) by simp
  show s: "set (filter (\<lambda>c. c \<in> P) all_colors) = P"
    using assms by (auto simp: all_colors_facts(3))
  show "length (filter (\<lambda>c. c \<in> P) all_colors) = card P"
    using distinct_card [OF d] s by simp
qed

lemma number_colors_step:
  "number_colors present (c # cs) (m, k) =
     number_colors present cs (if c \<in> present then (m(c \<mapsto> k), k + 1) else (m, k))"
  by (simp add: number_colors_def)

lemma number_colors_other:
  "c \<notin> present \<or> c \<notin> set cs \<Longrightarrow> fst (number_colors present cs (m, k)) c = m c"
proof (induction cs arbitrary: m k)
  case Nil
  show ?case by (simp add: number_colors_def)
next
  case (Cons a cs)
  then show ?case by (auto simp: number_colors_step)
qed

lemma number_colors_index:
  "distinct cs \<Longrightarrow> i < length (filter (\<lambda>c. c \<in> present) cs) \<Longrightarrow>
     fst (number_colors present cs (m, k)) (filter (\<lambda>c. c \<in> present) cs ! i) =
       Some (k + word_of_nat i)"
proof (induction cs arbitrary: m k i)
  case Nil
  then show ?case by simp
next
  case (Cons a cs)
  show ?case
  proof (cases "a \<in> present")
    case False
    then show ?thesis using Cons by (simp add: number_colors_step)
  next
    case True
    show ?thesis
    proof (cases i)
      case 0
      have "a \<notin> set cs" using Cons.prems(1) by simp
      then have "fst (number_colors present cs (m(a \<mapsto> k), k + 1)) a = Some k"
        using number_colors_other [of a present cs "m(a \<mapsto> k)" "k + 1"] by simp
      then show ?thesis using True 0 by (simp add: number_colors_step)
    next
      case (Suc j)
      then have "j < length (filter (\<lambda>c. c \<in> present) cs)" using Cons.prems(2) True by simp
      then have "fst (number_colors present cs (m(a \<mapsto> k), k + 1))
                   (filter (\<lambda>c. c \<in> present) cs ! j) = Some (k + 1 + word_of_nat j)"
        using Cons.IH Cons.prems(1) by simp
      then show ?thesis using True Suc by (simp add: number_colors_step add.assoc)
    qed
  qed
qed

lemma fold_update:
  "fold (\<lambda>color m. m(color \<mapsto> h color)) cs m0 =
     (\<lambda>key. if key \<in> set cs then Some (h key) else m0 key)"
proof (induction cs arbitrary: m0)
  case Nil
  show ?case by simp
next
  case (Cons c cs)
  have "fold (\<lambda>color m. m(color \<mapsto> h color)) (c # cs) m0 =
        fold (\<lambda>color m. m(color \<mapsto> h color)) cs (m0(c \<mapsto> h c))"
    by simp
  also have "\<dots> = (\<lambda>key. if key \<in> set cs then Some (h key) else (m0(c \<mapsto> h c)) key)"
    by (rule Cons.IH)
  also have "\<dots> = (\<lambda>key. if key \<in> set (c # cs) then Some (h key) else m0 key)"
    by auto
  finally show ?case .
qed

lemma fold_assign:
  "fold (\<lambda>color. case_sum Inl (\<lambda>m. Inr (m(color \<mapsto> h color)))) cs (Inr m0) =
     (Inr (fold (\<lambda>color m. m(color \<mapsto> h color)) cs m0) :: error + color_map)"
  by (induction cs arbitrary: m0) simp_all

lemma reduce_reduced: "\<not> reduce_fault k \<Longrightarrow> reduce color k = Inr (reduced k color)"
  by (simp add: reduce_def reduced_def)

lemma reduced_colors_image: "reduced_colors k present = reduced k ` present"
  by (simp add: reduced_colors_def reduced_def)

lemma make_color_map_plain:
  "make_color_map 4 orig quantized =
     Inr (fst (number_colors orig all_colors (Map.empty(- 1 \<mapsto> 0xfff), 0)))"
  by (simp add: make_color_map_def)

lemma make_color_map_reduced:
  assumes "divisor \<noteq> 4" and "\<not> reduce_fault divisor"
  shows "make_color_map divisor orig quantized =
     Inr (\<lambda>key. if key \<in> set all_colors
                 then Some (lookup0 (fst (number_colors quantized all_colors (Map.empty, 0)))
                              (reduced divisor key))
                 else (Map.empty(- 1 \<mapsto> 0xfff)) key)"
proof -
  have "\<And>color. reduce color divisor = Inr (reduced divisor color)"
    using assms(2) by (rule reduce_reduced)
  then show ?thesis
    using assms(1)
    by (simp add: make_color_map_def Let_def fold_assign fold_update)
qed

lemma reduced_range:
  assumes "0 < k" "k \<le> 255"
  shows "reduced k color \<in> {0..262143}"
proof -
  have "\<And>i. 0 \<le> reduce_component (component color i) k \<and>
            reduce_component (component color i) k < 256"
    using component_range [of color] by (intro reduce_component_range [OF assms]) simp_all
  then show ?thesis
    unfolding reduced_def using Rgb18_range by simp
qed

lemma foreground_colors_range: "foreground_colors bmp_fg bmp_bg width height \<subseteq> {0..262143}"
proof -
  have "\<And>p. 0 \<le> ch p 0 \<and> ch p 0 < 256 \<and> 0 \<le> ch p 1 \<and> ch p 1 < 256 \<and> 0 \<le> ch p 2 \<and> ch p 2 < 256"
  proof -
    fix p :: pixel
    obtain r g b where p: "p = (r, g, b)" by (cases p)
    show "0 \<le> ch p 0 \<and> ch p 0 < 256 \<and> 0 \<le> ch p 1 \<and> ch p 1 < 256 \<and> 0 \<le> ch p 2 \<and> ch p 2 < 256"
      using uint_bounded [of r] uint_bounded [of g] uint_bounded [of b] by (simp add: p)
  qed
  then have rng: "\<And>p q. p \<noteq> q \<Longrightarrow> default_color p q \<in> {0..262143}"
    using Rgb18_range by (simp add: default_color_def)
  show ?thesis
  proof
    fix c assume "c \<in> foreground_colors bmp_fg bmp_bg width height"
    then obtain y x where "bmp_fg y x \<noteq> bmp_bg y x" "c = default_color (bmp_fg y x) (bmp_bg y x)"
      by (auto simp: foreground_colors_def split: if_splits)
    then show "c \<in> {0..262143}" using rng by blast
  qed
qed

lemma final_palette:
  assumes search: "palette_search maxc F (card F) 4 {} = Inr (divisor, counter, qc)"
    and fin: "finite F" and rng: "F \<subseteq> {0..262143}"
  defines "P \<equiv> (if divisor = 4 then F else qc)"
  shows "counter = card P" and "counter \<le> maxc" and "P \<subseteq> {0..262143}"
    and "divisor \<noteq> 4 \<Longrightarrow> \<not> reduce_fault divisor \<and> P = reduced divisor ` F"
proof -
  from palette_search_result [OF search]
  have le: "counter \<le> maxc"
    and alt: "divisor = 4 \<and> counter = card F \<and> qc = {} \<or>
         4 < divisor \<and> maxc < card F \<and>
         count_reduced maxc divisor F all_colors {} 0 = Inr (qc, counter)"
    by auto
  show "counter \<le> maxc" by (rule le)
  have red: "divisor \<noteq> 4 \<Longrightarrow>
      \<not> reduce_fault divisor \<and> qc = reduced divisor ` F \<and> counter = card qc \<and> 0 < divisor
        \<and> divisor \<le> 255"
  proof -
    assume "divisor \<noteq> 4"
    with alt have d: "4 < divisor" and big: "maxc < card F"
      and pass: "count_reduced maxc divisor F all_colors {} 0 = Inr (qc, counter)"
      by auto
    from big have "F \<noteq> {}" by auto
    then have "\<exists>c\<in>set all_colors. c \<in> F" using rng by (auto simp: all_colors_facts(3))
    then have nf: "\<not> reduce_fault divisor" using count_reduced_no_fault [OF pass] by simp
    then have d255: "divisor \<le> 255" using reduce_fault_large [of divisor] by linarith
    have "F \<inter> set all_colors = F" using rng by (auto simp: all_colors_facts(3))
    then have "qc = reduced divisor ` F"
      using count_reduced_complete [OF pass le] by (simp add: reduced_colors_image)
    moreover have "counter = card qc" using count_reduced_card [OF pass] by simp
    ultimately show ?thesis using nf d d255 by simp
  qed
  show "counter = card P"
    using alt red by (auto simp: P_def)
  show "P \<subseteq> {0..262143}"
  proof (cases "divisor = 4")
    case True
    then show ?thesis using rng by (simp add: P_def)
  next
    case False
    then show ?thesis using red reduced_range [of divisor] by (auto simp: P_def)
  qed
  show "divisor \<noteq> 4 \<Longrightarrow> \<not> reduce_fault divisor \<and> P = reduced divisor ` F"
    using red by (simp add: P_def)
qed

lemma sentinel_not_a_color: "Rgb18_none \<notin> set all_colors"
  by (simp add: all_colors_facts(3) Rgb18_none_def)

section \<open>Run words\<close>

text \<open>A run word carries its index in the upper twelve bits and its length in the lower twenty.\<close>

lemma run_word_fields:
  assumes "0 \<le> len" "len < 2 ^ 20" "0 \<le> idx" "idx < 2 ^ 12"
  shows "drop_bit 20 (run_word (word_of_int idx) (word_of_int len)) = (word_of_int idx :: 32 word) \<and>
         take_bit 20 (run_word (word_of_int idx) (word_of_int len)) = (word_of_int len :: 32 word)"
proof -
  let ?w = "run_word (word_of_int idx) (word_of_int len) :: 32 word"
  have eq: "?w = word_of_int (idx * 2 ^ 20 + len)"
    by (simp add: run_word_def push_bit_eq_mult)
  have b: "0 \<le> idx * 2 ^ 20 + len" "idx * 2 ^ 20 + len < 2 ^ 32"
    using assms by auto
  define k where "k = idx * 2 ^ 20 + len"
  have "uint (word_of_int k :: 32 word) = k mod 2 ^ 32"
    by (simp add: uint_word_of_int)
  also have "\<dots> = k" using b unfolding k_def by (intro mod_pos_pos_trivial) simp_all
  finally have u: "uint ?w = idx * 2 ^ 20 + len"
    unfolding eq k_def .
  have d: "(idx * 2 ^ 20 + len) div 2 ^ 20 = idx"
    using assms by simp
  have m: "(idx * 2 ^ 20 + len) mod 2 ^ 20 = len"
    using assms by simp
  have i: "uint (word_of_int idx :: 32 word) = idx"
    using assms by (simp add: uint_word_of_int mod_pos_pos_trivial)
  have l: "uint (word_of_int len :: 32 word) = len"
    using assms by (simp add: uint_word_of_int mod_pos_pos_trivial)
  have "uint (drop_bit 20 ?w) = idx"
    using d b by (simp only: unsigned_drop_bit_eq u) (simp add: take_bit_int_eq_self drop_bit_eq_div)
  moreover have "uint (take_bit 20 ?w) = len"
    using m by (simp only: unsigned_take_bit_eq u) (simp add: take_bit_eq_mod)
  ultimately show ?thesis
    using i l by (metis word_uint_eqI)
qed

section \<open>Reading run words back\<close>

lemma write_uint32_bytes:
  "write_uint32 w =
     Write [ucast (drop_bit 24 w), ucast (drop_bit 16 w), ucast (drop_bit 8 w), ucast w]"
  by (simp add: write_uint32_def)

lemma read_write_uint32: "read_uint32 (write_uint32 w) = Some w"
proof -
  have "push_bit 24 (ucast (ucast (drop_bit 24 w) :: 8 word)) OR
        push_bit 16 (ucast (ucast (drop_bit 16 w) :: 8 word)) OR
        push_bit 8 (ucast (ucast (drop_bit 8 w) :: 8 word)) OR
        ucast (ucast w :: 8 word) = w"
  proof (rule bit_word_eqI)
    fix n :: nat
    assume "n < LENGTH(32)"
    then consider "n < 8" | "8 \<le> n \<and> n < 16" | "16 \<le> n \<and> n < 24" | "24 \<le> n \<and> n < 32"
      by fastforce
    then show "bit (push_bit 24 (ucast (ucast (drop_bit 24 w) :: 8 word)) OR
        push_bit 16 (ucast (ucast (drop_bit 16 w) :: 8 word)) OR
        push_bit 8 (ucast (ucast (drop_bit 8 w) :: 8 word)) OR
        (ucast (ucast w :: 8 word) :: 32 word)) n = bit w n"
      by cases (auto simp: bit_simps)
  qed
  then show ?thesis by (simp add: write_uint32_bytes)
qed

lemma decode_run_word:
  assumes "0 \<le> idx" "idx < 2 ^ 12" "n < 2 ^ 20"
  shows "decode_run (write_uint32 (run_word (word_of_int idx) (word_of_nat n))) = Some (idx, n)"
proof -
  have n: "int n < 2 ^ 20" using assms(3) by simp
  note f = run_word_fields [of "int n" idx]
  have d: "drop_bit 20 (run_word (word_of_int idx) (word_of_nat n)) = (word_of_int idx :: 32 word)"
    and t: "take_bit 20 (run_word (word_of_int idx) (word_of_nat n)) = (word_of_nat n :: 32 word)"
    using f assms(1,2) n by simp_all
  have "uint (word_of_int idx :: 32 word) = idx"
    using assms by (simp add: uint_word_of_int mod_pos_pos_trivial)
  moreover have "unat (word_of_nat n :: 32 word) = n"
    using assms(3) by (simp add: unat_of_nat)
  ultimately show ?thesis
    by (simp add: decode_run_def read_write_uint32 d t)
qed

section \<open>Runs and their words\<close>

lemma rle_from_colors:
  "(c, n) \<in> set (rle_from c0 n0 xs) \<Longrightarrow> c = c0 \<or> c \<in> set xs"
  by (induction xs arbitrary: c0 n0) (auto split: if_splits)

lemma rle_from_length:
  "(c, n) \<in> set (rle_from c0 n0 xs) \<Longrightarrow> n \<le> n0 + length xs"
  by (induction xs arbitrary: c0 n0) (fastforce split: if_splits)+

lemma rle_from_constant:
  assumes "c \<noteq> c0" and "0 < n"
  shows "rle_from c0 0 (replicate n c) = [(c, n)]"
proof -
  have run: "\<And>k m. rle_from c k (replicate m c) = (if 0 < k + m then [(c, k + m)] else [])"
  proof -
    fix k m show "rle_from c k (replicate m c) = (if 0 < k + m then [(c, k + m)] else [])"
      by (induction m arbitrary: k) auto
  qed
  obtain m where n: "n = Suc m" using assms(2) by (cases n) auto
  show ?thesis using assms(1) by (simp add: n run)
qed

lemma web_color_range: "0 \<le> web_color p q \<and> web_color p q < 2 ^ 12"
  using web_index_range [of p] by (auto simp: web_color_def)

lemma web_items_decode:
  assumes "length xs < 2 ^ 20" and "\<forall>c\<in>set xs. 0 \<le> c \<and> c < 2 ^ 12"
  shows "map decode_run (map web_item (rle_from 0xfff 0 xs)) = map Some (rle_from 0xfff 0 xs)"
proof -
  have "\<And>r. r \<in> set (rle_from 0xfff 0 xs) \<Longrightarrow> decode_run (web_item r) = Some r"
  proof -
    fix r :: "int \<times> nat"
    assume r: "r \<in> set (rle_from 0xfff 0 xs)"
    obtain c n where cn: "r = (c, n)" by (cases r)
    have "c = 0xfff \<or> c \<in> set xs" using rle_from_colors r cn by fastforce
    then have c: "0 \<le> c" "c < 2 ^ 12" using assms(2) by auto
    have "n \<le> 0 + length xs" using rle_from_length r cn by fastforce
    then have n: "n < 2 ^ 20" using assms(1) by simp
    show "decode_run (web_item r) = Some r"
      using decode_run_word [OF c n] by (simp add: web_item_def cn)
  qed
  then show ?thesis by (simp add: comp_def)
qed

section \<open>Positions in the palette and the colours of the runs\<close>

lemma position_nth: "c \<in> set xs \<Longrightarrow> position xs c < length xs \<and> xs ! position xs c = c"
  by (induction xs) auto

lemma position_of_nth: "distinct xs \<Longrightarrow> i < length xs \<Longrightarrow> position xs (xs ! i) = i"
proof (induction xs arbitrary: i)
  case Nil
  then show ?case by simp
next
  case (Cons x xs)
  then show ?case by (cases i) auto
qed

lemma palette_sorted_list:
  assumes "P \<subseteq> {0..262143}"
  shows "filter (\<lambda>c. c \<in> P) all_colors = sorted_list_of_set P"
proof -
  have fin: "finite P" using assms by (rule finite_subset) simp
  show ?thesis
  proof (rule sorted_distinct_set_unique)
    show "sorted (filter (\<lambda>c. c \<in> P) all_colors)" by (rule palette_list(1) [OF assms])
    show "distinct (filter (\<lambda>c. c \<in> P) all_colors)" by (rule palette_list(2) [OF assms])
    show "sorted (sorted_list_of_set P)" by simp
    show "distinct (sorted_list_of_set P)" by simp
    show "set (filter (\<lambda>c. c \<in> P) all_colors) = set (sorted_list_of_set P)"
      using palette_list(3) [OF assms] fin by simp
  qed
qed

lemma run_colors:
  assumes "line \<in> set (map (\<lambda>y. rle_from Rgb18_none 0
                 (map (\<lambda>x. default_color (bmp_fg y x) (bmp_bg y x)) [0..<nat width]))
              [0..<nat height])"
    and "run \<in> set line"
  shows "fst run \<in> insert Rgb18_none (foreground_colors bmp_fg bmp_bg width height)"
proof -
  obtain y where y: "y \<in> set [0..<nat height]"
    and line: "line = rle_from Rgb18_none 0
                 (map (\<lambda>x. default_color (bmp_fg y x) (bmp_bg y x)) [0..<nat width])"
    using assms(1) by auto
  obtain c n where run: "run = (c, n)" by (cases run)
  have "c = Rgb18_none \<or>
        c \<in> set (map (\<lambda>x. default_color (bmp_fg y x) (bmp_bg y x)) [0..<nat width])"
    using rle_from_colors assms(2) unfolding line run by fastforce
  then show ?thesis
  proof
    assume "c = Rgb18_none"
    then show ?thesis by (simp add: run)
  next
    assume "c \<in> set (map (\<lambda>x. default_color (bmp_fg y x) (bmp_bg y x)) [0..<nat width])"
    then obtain x where x: "x \<in> set [0..<nat width]"
      and c: "c = default_color (bmp_fg y x) (bmp_bg y x)" by auto
    show ?thesis
    proof (cases "bmp_fg y x = bmp_bg y x")
      case True
      then show ?thesis by (simp add: run c default_color_def)
    next
      case False
      then have "c \<in> foreground_colors bmp_fg bmp_bg width height"
        unfolding foreground_colors_def using x y c by (auto simp del: set_upt)
      then show ?thesis by (simp add: run)
    qed
  qed
qed

lemma run_lengths:
  assumes "line \<in> set (map (\<lambda>y. rle_from Rgb18_none 0
                 (map (\<lambda>x. default_color (bmp_fg y x) (bmp_bg y x)) [0..<nat width]))
              [0..<nat height])"
    and "run \<in> set line"
  shows "snd run \<le> nat width"
proof -
  obtain y where
    line: "line = rle_from Rgb18_none 0
                 (map (\<lambda>x. default_color (bmp_fg y x) (bmp_bg y x)) [0..<nat width])"
    using assms(1) by auto
  obtain c n where run: "run = (c, n)" by (cases run)
  have "n \<le> 0 + length (map (\<lambda>x. default_color (bmp_fg y x) (bmp_bg y x)) [0..<nat width])"
    using rle_from_length assms(2) unfolding line run by fastforce
  then show ?thesis by (simp add: run)
qed

section \<open>The dummy quantizer and the identical-image path\<close>

text \<open>
  C7, as the code has it: for every width and height the dummy quantizer appends the
  opening of the bitonal writer and one \<open>output_run(width)\<close> per row, sets the
  background colour to pure white, and writes neither flag: \<open>has_foreground\<close> and
  \<open>has_background\<close> are what the caller passed.
\<close>

theorem DummyQuantizer_effect:
  "DummyQuantizer pixmap_of out_fg out_bg width height s =
     s\<lparr>stream := stream s @ R4_open width height # replicate (nat height) (R4_run width),
       background_color := (0xff, 0xff, 0xff)\<rparr> \<and>
   has_foreground (DummyQuantizer pixmap_of out_fg out_bg width height s) = has_foreground s \<and>
   has_background (DummyQuantizer pixmap_of out_fg out_bg width height s) = has_background s"
  by (simp add: DummyQuantizer_def dummy_quantizer_eq)

text \<open>
  C7 as stated fails: on a 1 x 1 page, a caller whose \<open>has_background\<close> is false still
  has it false after the dummy quantizer has run.
\<close>

theorem DummyQuantizer_has_background_counterexample:
  "\<not> has_background
       (DummyQuantizer (\<lambda>r y x. (0, 0, 0)) 0 1 1 1
          \<lparr>background_color = (0, 0, 0), has_foreground = False, has_background = False,
           stream = []\<rparr>)"
  by (simp add: DummyQuantizer_def dummy_quantizer_eq)

text \<open>
  C6: called with one and the same renderer for foreground and background, the mask,
  web-safe and default quantizers do no classification: the stream gains exactly the dummy
  encoding, the background colour is pure white, \<open>has_background\<close> is true and
  \<open>has_foreground\<close> is untouched. This holds for every width and height.
\<close>

theorem identical_handles_dummy:
  "MaskQuantizer pixmap_of r r width height s =
     s\<lparr>stream := stream s @ R4_open width height # replicate (nat height) (R4_run width),
       background_color := (0xff, 0xff, 0xff), has_background := True\<rparr> \<and>
   WebSafeQuantizer pixmap_of r r width height s =
     s\<lparr>stream := stream s @ R4_open width height # replicate (nat height) (R4_run width),
       background_color := (0xff, 0xff, 0xff), has_background := True\<rparr> \<and>
   DefaultQuantizer max_fg_colors pixmap_of r r width height s =
     Inr (s\<lparr>stream := stream s @ R4_open width height # replicate (nat height) (R4_run width),
            background_color := (0xff, 0xff, 0xff), has_background := True\<rparr>) \<and>
   stream (dummy_quantizer width height s) =
     stream s @ R4_open width height # replicate (nat height) (R4_run width)"
  by (simp add: MaskQuantizer_def WebSafeQuantizer_def DefaultQuantizer_def dummy_quantizer_eq)

section \<open>Who writes the background colour\<close>

text \<open>
  C10: with distinct renderers the mask quantizer leaves all three components of the
  caller's \<open>background_color\<close> as they were; it only compares them with the background
  pixels to decide \<open>has_background\<close>. The web-safe and the default quantizer instead
  return with \<open>background_color\<close> equal to the first pixel of the background image.
\<close>

theorem MaskQuantizer_background_color_unchanged:
  assumes "out_fg \<noteq> out_bg"
  shows "background_color (MaskQuantizer pixmap_of out_fg out_bg width height s) = background_color s \<and>
    has_background (MaskQuantizer pixmap_of out_fg out_bg width height s) =
     (has_background s \<or>
      (\<exists>y\<in>set [0..<nat height]. \<exists>x\<in>set [0..<nat width].
          background_color s \<noteq> promote (pixmap_of out_bg y x))) \<and>
    background_color (WebSafeQuantizer pixmap_of out_fg out_bg width height s) =
      promote (pixmap_of out_bg 0 0) \<and>
    background_color (caller (default_scan (pixmap_of out_fg) (pixmap_of out_bg) width height s)) =
      promote (pixmap_of out_bg 0 0) \<and>
    (\<forall>s'. DefaultQuantizer max_fg_colors pixmap_of out_fg out_bg width height s = Inr s' \<longrightarrow>
          background_color s' = promote (pixmap_of out_bg 0 0))"
  using assms MaskQuantizer_has_background [OF assms]
  by (simp add: MaskQuantizer_background_color WebSafeQuantizer_background_color
        DefaultQuantizer_fields(1) default_scan_fields(1))

text \<open>
  C10 at a 1 x 1 page whose background pixel is (4, 5, 6), for a caller holding (7, 8, 9).
\<close>

theorem MaskQuantizer_background_color_unchanged_witness:
  "(0::nat) \<noteq> 1 \<and>
   background_color
     (MaskQuantizer (\<lambda>r y x. if r = 0 then (1, 2, 3) else (4, 5, 6)) 0 1 1 1
        \<lparr>background_color = (7, 8, 9), has_foreground = False, has_background = False,
         stream = []\<rparr>) = (7, 8, 9) \<and>
   has_background
     (MaskQuantizer (\<lambda>r y x. if r = 0 then (1, 2, 3) else (4, 5, 6)) 0 1 1 1
        \<lparr>background_color = (7, 8, 9), has_foreground = False, has_background = False,
         stream = []\<rparr>) \<and>
   background_color
     (WebSafeQuantizer (\<lambda>r y x. if r = 0 then (1, 2, 3) else (4, 5, 6)) 0 1 1 1
        \<lparr>background_color = (7, 8, 9), has_foreground = False, has_background = False,
         stream = []\<rparr>) = (4, 5, 6)"
  using MaskQuantizer_background_color_unchanged
    [of 0 1 "\<lambda>r y x. if r = 0 then (1, 2, 3) else (4, 5, 6)" 1 1
        "\<lparr>background_color = (7, 8, 9), has_foreground = False, has_background = False,
         stream = []\<rparr>"]
  by (simp add: promote_def)

section \<open>Classification and the foreground flag\<close>



section \<open>Reducing a colour key\<close>

text \<open>
  C4: for every 18-bit key and every divisor \<open>k \<ge> 2\<close> for which \<open>c\<close>, the ceiling of
  \<open>256 / k\<close>, is at least 2, \<open>Rgb18::reduce\<close> returns without fault, and its result is
  the key the specification describes: each channel \<open>v\<close> unpacked by \<open>operator []\<close>
  goes to the bucket \<open>m = floor (v c / 256)\<close> and to the reduced value
  \<open>floor (255 m / (c - 1))\<close> (real division, then floor), and the three reduced values
  are packed with six bits each, dropping their two low bits. The result is again an
  18-bit key.
\<close>

theorem reduce_matches_specification:
  assumes "0 \<le> val" and "val < 2 ^ 18" and "2 \<le> k" and "2 \<le> \<lceil>256 / real_of_int k\<rceil>"
  shows "reduce val k = Inr (reduce_spec val k) \<and>
         0 \<le> reduce_spec val k \<and> reduce_spec val k < 2 ^ 18"
proof -
  have k0: "0 < k" using assms(3) by simp
  have k255: "k \<le> 255"
  proof (rule ccontr)
    assume "\<not> k \<le> 255"
    then have "256 \<le> k" by simp
    then have "256 / real_of_int k \<le> 1" by simp
    then have "\<lceil>256 / real_of_int k\<rceil> \<le> 1" by (simp add: ceiling_le_iff)
    with assms(4) show False by simp
  qed
  note rng = component_range [of val]
  have el: "\<And>i. reduce_component (component val i) k =
      \<lfloor>255 * real_of_int \<lfloor>real_of_int (component val i) * real_of_int \<lceil>256 / real_of_int k\<rceil> / 256\<rfloor>
        / real_of_int (\<lceil>256 / real_of_int k\<rceil> - 1)\<rfloor>"
    using rng by (intro reduce_component_floor [OF k0 k255]) simp
  have rr: "\<And>i. 0 \<le> reduce_component (component val i) k \<and>
                 reduce_component (component val i) k < 256"
    using rng by (intro reduce_component_range [OF k0 k255]) simp_all
  have red: "reduce val k = Inr (Rgb18 (reduce_component (component val 0) k)
                      (reduce_component (component val 1) k)
                      (reduce_component (component val 2) k))"
    using reduce_not_fault [OF k0 k255] by (simp add: reduce_def)
  have sp: "reduce_spec val k =
      reduce_component (component val 0) k div 4
      + 64 * (reduce_component (component val 1) k div 4)
      + 4096 * (reduce_component (component val 2) k div 4)"
    unfolding reduce_spec_def Let_def el [symmetric] ..
  have ar: "Rgb18 (reduce_component (component val 0) k)
                      (reduce_component (component val 1) k)
                      (reduce_component (component val 2) k) = reduce_spec val k"
    unfolding sp using rr by (intro Rgb18_arith) simp_all
  have "0 \<le> reduce_spec val k \<and> reduce_spec val k \<le> 262143"
    unfolding ar [symmetric] using rr by (intro Rgb18_range) simp_all
  with red ar show ?thesis by simp
qed

text \<open>
  C4 for the key of the colour (200, 100, 48), which is 50 + 64 * 25 + 4096 * 12, and the
  divisor 5: \<open>c\<close> is 52 and the channels 203, 101 and 48 go to 205, 100 and 45.
\<close>

theorem reduce_matches_specification_witness:
  "(0::int) \<le> 50802 \<and> (50802::int) < 2 ^ 18 \<and> (2::int) \<le> 5 \<and>
   2 \<le> \<lceil>256 / real_of_int 5\<rceil> \<and>
   reduce 50802 5 = Inr (reduce_spec 50802 5) \<and> reduce_spec 50802 5 = 46707"
proof -
  have c: "\<lceil>256 / real_of_int 5\<rceil> = 52" by (simp add: ceiling_eq_iff)
  have code: "reduce 50802 5 = Inr 46707"
    by (simp add: reduce_def reduce_fault_def reduce_component_def component_def Rgb18_def
          Let_def signed_divide_int_def drop_bit_eq_div push_bit_eq_mult)
  show ?thesis
    using reduce_matches_specification [of 50802 5] c code by simp
qed

section \<open>The GraphicsMagick quantizer without GraphicsMagick\<close>

text \<open>
  C9: built without GraphicsMagick, every call of the GraphicsMagick quantizer fails with
  \<open>NotImplementedError\<close> and leaves the stream, the flags and the background colour as
  they were: nothing has been written when it fails. The failure is raised by the
  constructor, for every configuration, so that no object of this variant ever exists and
  the empty body of \<open>operator()\<close> is never reached.
\<close>

theorem GraphicsMagickQuantizer_unavailable:
  "GraphicsMagickQuantizer_invoke config pixmap_of out_fg out_bg width height s =
     (Some NotImplementedError, s) \<and>
   stream (snd (GraphicsMagickQuantizer_invoke config pixmap_of out_fg out_bg width height s)) =
     stream s \<and>
   GraphicsMagickQuantizer_new config = Inl NotImplementedError \<and>
   (\<nexists>this. GraphicsMagickQuantizer_new config = Inr this)"
  by (simp add: GraphicsMagickQuantizer_invoke_def GraphicsMagickQuantizer_new_def)

section \<open>Termination of the palette search\<close>

text \<open>
  C3, as the code has it: when \<open>max_fg_colors\<close> is at least 8 the palette search
  returns normally for every set of colours and every initial count, with a final divisor
  between 4 and 128 and a count of at most \<open>max_fg_colors\<close>. The divisor starts at 4 and
  grows by one in each iteration, so the loop runs at most 124 times, which is less than
  256. (With the divisor 128 each channel is reduced to 0 or 255, which leaves at most 8
  colours.)
\<close>

theorem palette_search_terminates:
  assumes "8 \<le> max_fg_colors"
  shows "\<exists>divisor counter quantized.
           palette_search max_fg_colors orig counter0 4 {} = Inr (divisor, counter, quantized) \<and>
           4 \<le> divisor \<and> divisor - 4 \<le> 124 \<and> counter \<le> max_fg_colors"
proof -
  obtain d' n q where "palette_search max_fg_colors orig counter0 4 {} = Inr (d', n, q)"
    "4 \<le> d'" "d' \<le> 128" "n \<le> max_fg_colors"
    using palette_search_converges [OF assms, of 4 counter0 orig "{}"] by auto
  then show ?thesis by auto
qed

text \<open>
  C3 for \<open>max_fg_colors\<close> 8 and nine colours, where the loop has to run.
\<close>

theorem palette_search_terminates_witness:
  "(8::nat) \<le> 8 \<and>
   (\<exists>divisor counter quantized.
       palette_search 8 {0, 1, 2, 3, 4, 5, 6, 7, 8} 9 4 {} = Inr (divisor, counter, quantized) \<and>
       4 \<le> divisor \<and> divisor - 4 \<le> 124 \<and> counter \<le> 8)"
  using palette_search_terminates [of 8 "{0, 1, 2, 3, 4, 5, 6, 7, 8}" 9] by simp

text \<open>
  C3 as stated fails for a small \<open>max_fg_colors\<close>. Take \<open>max_fg_colors\<close> 1 and a
  page of one row over a grey background whose two pixels are black and white. Black and
  white stay distinct under every divisor, so the search reaches the divisor 256, where
  \<open>c - 1\<close> is 0 and \<open>reduce\<close> divides by zero: the quantizer does not return a result.
\<close>

theorem palette_search_counterexample:
  "DefaultQuantizer 1
     (\<lambda>r y x. if r = 1 then (128, 128, 128) else if x = 0 then (0, 0, 0) else (255, 255, 255))
     0 1 2 1
     \<lparr>background_color = (0, 0, 0), has_foreground = False, has_background = False,
      stream = []\<rparr> = Inl DivisionByZero"
proof -
  let ?pm = "\<lambda>r y x. if r = (1::nat) then (128, 128, 128) else if x = (0::nat) then (0, 0, 0)
                      else (255, 255, 255) :: pixel"
  let ?s = "\<lparr>background_color = (0, 0, 0), has_foreground = False, has_background = False,
      stream = []\<rparr>"
  let ?st = "default_scan (?pm 0) (?pm 1) 2 1 ?s"
  have orig: "original_colors ?st = {0, 262143}"
    by (simp add: default_scan_fields(5) foreground_colors_def default_color_def upt_rec
          Rgb18_arith insert_commute)
  have "counted ?st" by (rule default_scan_fields(6))
  then have cnt: "color_counter ?st = 2" unfolding counted_def orig by simp
  have bw: "palette_search 1 {0, 262143} 2 4 {} = Inl DivisionByZero"
    by (rule black_white_search) simp_all
  have eq: "DefaultQuantizer 1 ?pm 0 1 2 1 ?s =
      (case palette_search 1 (original_colors ?st) (color_counter ?st) 4 {} of
         Inl e \<Rightarrow> Inl e
       | Inr (divisor, counter, qc) \<Rightarrow>
           (case make_color_map divisor (original_colors ?st)
                   (if divisor = 4 then original_colors ?st else qc) of
              Inl e \<Rightarrow> Inl e
            | Inr cmap \<Rightarrow>
                Inr (output_runs cmap (runs ?st)
                       (output_palette counter
                          (if divisor = 4 then original_colors ?st else qc) (caller ?st)))))"
    unfolding DefaultQuantizer_def Let_def by simp
  show ?thesis
    unfolding eq orig cnt bw by simp
qed

section \<open>The web-safe index and palette\<close>

text \<open>
  C5, as the code has it: for distinct renderers and a positive width the web-safe
  quantizer writes the header, the palette of 216 entries, entry \<open>i\<close> being the colour
  \<open>(51 (i div 36), 51 ((i div 6) mod 6), 51 (i mod 6))\<close>, and then per row the run words
  of the pixels' colours. The colour of a foreground pixel with channels \<open>(R, G, B)\<close> is
  \<open>floor ((B + 1) / 43) + 6 (floor ((G + 1) / 43) + 6 floor ((R + 1) / 43))\<close>, and it lies
  between 0 and 215. When the width is below \<open>2 ^ 20\<close>, the four bytes of every run word
  read back as the index and the length of its run, and the runs of a row decode to the
  colours of its pixels, one by one: every foreground pixel is emitted with its index.
\<close>

theorem WebSafeQuantizer_index_and_palette:
  assumes "out_fg \<noteq> out_bg" and "0 < width"
  shows
    "stream (WebSafeQuantizer pixmap_of out_fg out_bg width height s) =
       stream s @ [Str ''R6 '', Dec width, Str '' '', Dec height, Str '' '', Str ''216'', Endl] @
       map (\<lambda>i. Write [word_of_nat (51 * (i div 36)), word_of_nat (51 * ((i div 6) mod 6)),
                        word_of_nat (51 * (i mod 6))]) [0..<216] @
       concat (map (\<lambda>y. map web_item (rle_from 0xfff 0
                 (map (\<lambda>x. web_color (pixmap_of out_fg y x) (pixmap_of out_bg y x))
                    [0..<nat width]))) [0..<nat height]) \<and>
     (width < 2 ^ 20 \<longrightarrow>
        (\<forall>y. map decode_run (map web_item (rle_from 0xfff 0
                 (map (\<lambda>x. web_color (pixmap_of out_fg y x) (pixmap_of out_bg y x))
                    [0..<nat width]))) =
              map Some (rle_from 0xfff 0
                 (map (\<lambda>x. web_color (pixmap_of out_fg y x) (pixmap_of out_bg y x))
                    [0..<nat width])))) \<and>
     (\<forall>y. expand (rle_from 0xfff 0
                 (map (\<lambda>x. web_color (pixmap_of out_fg y x) (pixmap_of out_bg y x))
                    [0..<nat width])) =
           map (\<lambda>x. web_color (pixmap_of out_fg y x) (pixmap_of out_bg y x)) [0..<nat width]) \<and>
     (\<forall>r g b p_bg. (r, g, b) \<noteq> p_bg \<longrightarrow>
        web_color (r, g, b) p_bg = web_index_spec (uint r) (uint g) (uint b) \<and>
        0 \<le> web_color (r, g, b) p_bg \<and> web_color (r, g, b) p_bg \<le> 215)"
proof -
  have pal: "map web_palette_entry [0..<216] =
      map (\<lambda>i. Write [word_of_nat (51 * (i div 36)), word_of_nat (51 * ((i div 6) mod 6)),
                        word_of_nat (51 * (i mod 6))]) [0..<216]"
    by (simp add: web_palette_entry_def)
  have idx: "\<And>r g b p_bg. (r, g, b) \<noteq> p_bg \<Longrightarrow>
        web_color (r, g, b) p_bg = web_index_spec (uint r) (uint g) (uint b) \<and>
        0 \<le> web_color (r, g, b) p_bg \<and> web_color (r, g, b) p_bg \<le> 215"
  proof -
    fix r g b :: "8 word" and p_bg :: pixel
    assume "(r, g, b) \<noteq> p_bg"
    then have "web_color (r, g, b) p_bg = web_index (r, g, b)"
      by (simp add: web_color_def differs_iff)
    then show "web_color (r, g, b) p_bg = web_index_spec (uint r) (uint g) (uint b) \<and>
        0 \<le> web_color (r, g, b) p_bg \<and> web_color (r, g, b) p_bg \<le> 215"
      using web_index_range [of "(r, g, b)"] web_index_spec_eq [of r g b] by simp
  qed
  have A: "stream (WebSafeQuantizer pixmap_of out_fg out_bg width height s) =
       stream s @ [Str ''R6 '', Dec width, Str '' '', Dec height, Str '' '', Str ''216'', Endl] @
       map (\<lambda>i. Write [word_of_nat (51 * (i div 36)), word_of_nat (51 * ((i div 6) mod 6)),
                        word_of_nat (51 * (i mod 6))]) [0..<216] @
       concat (map (\<lambda>y. map web_item (rle_from 0xfff 0
                 (map (\<lambda>x. web_color (pixmap_of out_fg y x) (pixmap_of out_bg y x))
                    [0..<nat width]))) [0..<nat height])"
    using WebSafeQuantizer_stream [OF assms, of pixmap_of height s] by (simp only: pal)
  have D: "width < 2 ^ 20 \<longrightarrow>
        (\<forall>y. map decode_run (map web_item (rle_from 0xfff 0
                 (map (\<lambda>x. web_color (pixmap_of out_fg y x) (pixmap_of out_bg y x))
                    [0..<nat width]))) =
              map Some (rle_from 0xfff 0
                 (map (\<lambda>x. web_color (pixmap_of out_fg y x) (pixmap_of out_bg y x))
                    [0..<nat width])))"
  proof (intro impI allI)
    fix y assume w: "width < 2 ^ 20"
    let ?xs = "map (\<lambda>x. web_color (pixmap_of out_fg y x) (pixmap_of out_bg y x)) [0..<nat width]"
    have "length ?xs < 2 ^ 20" using w assms(2) by simp
    moreover have "\<forall>c\<in>set ?xs. 0 \<le> c \<and> c < 2 ^ 12" using web_color_range by auto
    ultimately show "map decode_run (map web_item (rle_from 0xfff 0 ?xs)) =
        map Some (rle_from 0xfff 0 ?xs)"
      by (rule web_items_decode)
  qed
  have B: "\<forall>y. expand (rle_from 0xfff 0
                 (map (\<lambda>x. web_color (pixmap_of out_fg y x) (pixmap_of out_bg y x))
                    [0..<nat width])) =
           map (\<lambda>x. web_color (pixmap_of out_fg y x) (pixmap_of out_bg y x)) [0..<nat width]"
    by (simp add: expand_rle_from)
  have C: "\<forall>r g b p_bg. (r, g, b) \<noteq> p_bg \<longrightarrow>
        web_color (r, g, b) p_bg = web_index_spec (uint r) (uint g) (uint b) \<and>
        0 \<le> web_color (r, g, b) p_bg \<and> web_color (r, g, b) p_bg \<le> 215"
    using idx by blast
  from A D B C show ?thesis by (intro conjI)
qed

text \<open>
  C5 on a 1 x 1 page with the foreground pixel (200, 0, 0) over the background
  (10, 10, 10): the only run word is the bytes 09 00 00 01, which read back as the index
  0 + 6 (0 + 6 * 4) = 144 and the length 1.
\<close>

theorem WebSafeQuantizer_index_and_palette_witness:
  "(0::nat) \<noteq> 1 \<and> (0::int) < 1 \<and>
   stream (WebSafeQuantizer (\<lambda>r y x. if r = 0 then (200, 0, 0) else (10, 10, 10)) 0 1 1 1
             \<lparr>background_color = (0, 0, 0), has_foreground = False,
              has_background = False, stream = []\<rparr>) =
     [Str ''R6 '', Dec 1, Str '' '', Dec 1, Str '' '', Str ''216'', Endl] @
     map (\<lambda>i. Write [word_of_nat (51 * (i div 36)), word_of_nat (51 * ((i div 6) mod 6)),
                      word_of_nat (51 * (i mod 6))]) [0..<216] @
     [Write [0x09, 0x00, 0x00, 0x01]] \<and>
   map decode_run [Write [0x09, 0x00, 0x00, 0x01]] = [Some (144, 1)]"
  using WebSafeQuantizer_index_and_palette
    [of 0 1 1 "\<lambda>r y x. if r = 0 then (200, 0, 0) else (10, 10, 10)" 1
        "\<lparr>background_color = (0, 0, 0), has_foreground = False,
              has_background = False, stream = []\<rparr>"]
  by (simp add: web_color_def differs_def web_index_def web_item_def write_uint32_bytes
        run_word_def decode_run_def)

text \<open>
  C5 as stated fails on a wide row. On a page of one row of \<open>2 ^ 20\<close> pixels, all
  (200, 0, 0) over the background (10, 10, 10), every pixel has the index 144, and the one
  run word written for the row is the bytes 09 10 00 00: the length has run over into the
  index, which reads 145, with the length 0.
\<close>

theorem WebSafeQuantizer_index_counterexample:
  "web_index (200, 0, 0) = 144 \<and>
   stream (WebSafeQuantizer (\<lambda>r y x. if r = 0 then (200, 0, 0) else (10, 10, 10)) 0 1 1048576 1
             \<lparr>background_color = (0, 0, 0), has_foreground = False,
              has_background = False, stream = []\<rparr>) =
     [Str ''R6 '', Dec 1048576, Str '' '', Dec 1, Str '' '', Str ''216'', Endl] @
     map (\<lambda>i. Write [word_of_nat (51 * (i div 36)), word_of_nat (51 * ((i div 6) mod 6)),
                      word_of_nat (51 * (i mod 6))]) [0..<216] @
     [Write [0x09, 0x10, 0x00, 0x00]] \<and>
   decode_run (Write [0x09, 0x10, 0x00, 0x00]) = Some (145, 0)"
proof -
  let ?pm = "\<lambda>r y x. if r = (0::nat) then (200, 0, 0) else (10, 10, 10) :: pixel"
  let ?s = "\<lparr>background_color = (0, 0, 0), has_foreground = False,
              has_background = False, stream = []\<rparr>"
  have idx: "web_index (200, 0, 0) = 144" by (simp add: web_index_def)
  have row: "\<And>y. map (\<lambda>x. web_color (?pm 0 y x) (?pm 1 y x)) [0..<nat 1048576] =
      replicate 1048576 144"
    by (simp add: web_color_def differs_def idx map_replicate_const)
  have runs: "rle_from 0xfff 0 (replicate 1048576 (144::int)) = [(144, 1048576)]"
    by (rule rle_from_constant) simp_all
  have item: "web_item (144, 1048576) = Write [0x09, 0x10, 0x00, 0x00]"
    by (simp add: web_item_def write_uint32_bytes run_word_def)
  have pal: "map web_palette_entry [0..<216] =
      map (\<lambda>i. Write [word_of_nat (51 * (i div 36)), word_of_nat (51 * ((i div 6) mod 6)),
                        word_of_nat (51 * (i mod 6))]) [0..<216]"
    by (simp add: web_palette_entry_def)
  have "stream (WebSafeQuantizer ?pm 0 1 1048576 1 ?s) =
     [Str ''R6 '', Dec 1048576, Str '' '', Dec 1, Str '' '', Str ''216'', Endl] @
     map web_palette_entry [0..<216] @ [Write [0x09, 0x10, 0x00, 0x00]]"
    using WebSafeQuantizer_stream [of 0 1 1048576 ?pm 1 ?s]
    unfolding row runs by (simp add: item)
  moreover have "decode_run (Write [0x09, 0x10, 0x00, 0x00]) = Some (145, 0)"
    by (simp add: decode_run_def)
  ultimately show ?thesis using idx by (simp only: pal)
qed

section \<open>A page without foreground under the default quantizer\<close>

text \<open>
  C8, as the code has it: for distinct renderers and a positive width, when every pixel
  equals its background pixel the default quantizer succeeds, whatever \<open>max_fg_colors\<close>
  is, and writes the header, the palette size 1, one white entry, and for each row exactly
  one run word, \<open>(0xfff << 20) + width\<close> in 32 bits. For a single row that is one run
  word. When the width is below \<open>2 ^ 20\<close> the four bytes of that word read back as the
  sentinel index 0xfff and the full width.
\<close>

theorem DefaultQuantizer_without_foreground:
  assumes "out_fg \<noteq> out_bg" and "0 < width"
    and "\<forall>y\<in>set [0..<nat height]. \<forall>x\<in>set [0..<nat width].
           pixmap_of out_fg y x = pixmap_of out_bg y x"
  shows "(\<exists>s'. DefaultQuantizer max_fg_colors pixmap_of out_fg out_bg width height s = Inr s' \<and>
     stream s' = stream s @
        [Str ''R6 '', Dec width, Str '' '', Dec height, Str '' '',
         Dec 1, Endl, Str [CHR 0xff, CHR 0xff, CHR 0xff]] @
        replicate (nat height) (write_uint32 (run_word 0xfff (word_of_int width))) \<and>
     (height = 1 \<longrightarrow> stream s' = stream s @
        [Str ''R6 '', Dec width, Str '' '', Dec height, Str '' '',
         Dec 1, Endl, Str [CHR 0xff, CHR 0xff, CHR 0xff],
         write_uint32 (run_word 0xfff (word_of_int width))])) \<and>
     write_uint32 (run_word 0xfff (word_of_int width)) =
       Write [ucast (drop_bit 24 (run_word 0xfff (word_of_int width))),
              ucast (drop_bit 16 (run_word 0xfff (word_of_int width))),
              ucast (drop_bit 8 (run_word 0xfff (word_of_int width))),
              ucast (run_word 0xfff (word_of_int width))] \<and>
     (width < 2 ^ 20 \<longrightarrow>
        decode_run (write_uint32 (run_word 0xfff (word_of_int width))) = Some (0xfff, nat width))"
proof -
  obtain s' where "DefaultQuantizer max_fg_colors pixmap_of out_fg out_bg width height s = Inr s'"
    and "stream s' = stream s @
        [Str ''R6 '', Dec width, Str '' '', Dec height, Str '' '',
         Dec 1, Endl, Str [CHR 0xff, CHR 0xff, CHR 0xff]] @
        replicate (nat height) (write_uint32 (run_word 0xfff (word_of_int width)))"
    using DefaultQuantizer_no_foreground [OF assms] by blast
  then have "\<exists>s'. DefaultQuantizer max_fg_colors pixmap_of out_fg out_bg width height s = Inr s' \<and>
     stream s' = stream s @
        [Str ''R6 '', Dec width, Str '' '', Dec height, Str '' '',
         Dec 1, Endl, Str [CHR 0xff, CHR 0xff, CHR 0xff]] @
        replicate (nat height) (write_uint32 (run_word 0xfff (word_of_int width))) \<and>
     (height = 1 \<longrightarrow> stream s' = stream s @
        [Str ''R6 '', Dec width, Str '' '', Dec height, Str '' '',
         Dec 1, Endl, Str [CHR 0xff, CHR 0xff, CHR 0xff],
         write_uint32 (run_word 0xfff (word_of_int width))])"
    by auto
  moreover have "width < 2 ^ 20 \<Longrightarrow>
      decode_run (write_uint32 (run_word 0xfff (word_of_int width))) = Some (0xfff, nat width)"
  proof -
    assume w: "width < 2 ^ 20"
    have "nat width < 2 ^ 20" using w assms(2) by (simp add: nat_less_iff)
    then have "decode_run (write_uint32 (run_word (word_of_int 0xfff) (word_of_nat (nat width)))) =
        Some (0xfff, nat width)"
      by (intro decode_run_word) simp_all
    then show ?thesis using assms(2) by simp
  qed
  ultimately show ?thesis using write_uint32_bytes by blast
qed

text \<open>
  C8 on a single row of three pixels equal to the background, with \<open>max_fg_colors\<close> 256:
  the run word is the bytes ff f0 00 03, index 0xfff and length 3.
\<close>

theorem DefaultQuantizer_without_foreground_witness:
  "(0::nat) \<noteq> 1 \<and> (0::int) < 3 \<and>
   (\<exists>s'. DefaultQuantizer 256 (\<lambda>r y x. (10, 10, 10)) 0 1 3 1
             \<lparr>background_color = (0, 0, 0), has_foreground = False,
              has_background = False, stream = []\<rparr> = Inr s' \<and>
      stream s' =
        [Str ''R6 '', Dec 3, Str '' '', Dec 1, Str '' '',
         Dec 1, Endl, Str [CHR 0xff, CHR 0xff, CHR 0xff],
         Write [0xff, 0xf0, 0x00, 0x03]]) \<and>
   decode_run (Write [0xff, 0xf0, 0x00, 0x03]) = Some (0xfff, 3)"
proof -
  have bytes: "write_uint32 (run_word 0xfff 3) = Write [0xff, 0xf0, 0x00, 0x03]"
    by (simp add: write_uint32_bytes run_word_def)
  show ?thesis
    using DefaultQuantizer_without_foreground
      [of 0 1 3 1 "\<lambda>r y x. (10, 10, 10)" 256
          "\<lparr>background_color = (0, 0, 0), has_foreground = False,
                has_background = False, stream = []\<rparr>"]
    by (simp add: bytes)
qed

text \<open>
  C8 as stated fails on a wide row. On a page of one row of \<open>2 ^ 20\<close> pixels, all equal
  to the background, the one run word written is the bytes 00 00 00 00: the length has run
  over into the index and out of the word, so the run reads as index 0 and length 0, not
  as the sentinel 0xfff over the full row.
\<close>

theorem DefaultQuantizer_without_foreground_counterexample:
  "(\<exists>s'. DefaultQuantizer 256 (\<lambda>r y x. (10, 10, 10)) 0 1 1048576 1
             \<lparr>background_color = (0, 0, 0), has_foreground = False,
              has_background = False, stream = []\<rparr> = Inr s' \<and>
      stream s' =
        [Str ''R6 '', Dec 1048576, Str '' '', Dec 1, Str '' '',
         Dec 1, Endl, Str [CHR 0xff, CHR 0xff, CHR 0xff],
         Write [0x00, 0x00, 0x00, 0x00]]) \<and>
   decode_run (Write [0x00, 0x00, 0x00, 0x00]) = Some (0, 0)"
proof -
  have bytes: "write_uint32 (run_word 0xfff 1048576) = Write [0x00, 0x00, 0x00, 0x00]"
    by (simp add: write_uint32_bytes run_word_def)
  have ne: "(0::nat) \<noteq> 1" and w: "(0::int) < 1048576" by simp_all
  have same: "\<forall>y\<in>set [0..<nat 1]. \<forall>x\<in>set [0..<nat 1048576].
      (\<lambda>r y x. (10, 10, 10) :: pixel) (0::nat) y x = (\<lambda>r y x. (10, 10, 10)) (1::nat) y x"
    by simp
  obtain s' where "DefaultQuantizer 256 (\<lambda>r y x. (10, 10, 10)) 0 1 1048576 1
             \<lparr>background_color = (0, 0, 0), has_foreground = False,
              has_background = False, stream = []\<rparr> = Inr s'"
    and "stream s' = stream \<lparr>background_color = (0, 0, 0), has_foreground = False,
              has_background = False, stream = []\<rparr> @
        [Str ''R6 '', Dec 1048576, Str '' '', Dec 1, Str '' '',
         Dec 1, Endl, Str [CHR 0xff, CHR 0xff, CHR 0xff]] @
        replicate (nat 1) (write_uint32 (run_word 0xfff (word_of_int 1048576)))"
    using DefaultQuantizer_no_foreground [OF ne w same, of 256] by blast
  moreover have "decode_run (Write [0x00, 0x00, 0x00, 0x00]) = Some (0, 0)"
    by (simp add: decode_run_def)
  ultimately show ?thesis by (simp add: bytes)
qed

section \<open>The palette of the default quantizer\<close>

text \<open>
  C2: whenever the default quantizer, called with distinct renderers, returns, the palette
  search has ended with some divisor, and with \<open>pal\<close> the final palette for that
  divisor (the representatives of the foreground colours of the page, ascending): \<open>pal\<close>
  is strictly ascending, consists of 18-bit keys, has at most \<open>max_fg_colors\<close> entries,
  and holds the representative of every foreground colour; entry \<open>i\<close> has the index
  \<open>i\<close>. The colour map the quantizer has built sends the key of a background pixel to
  0xfff and every foreground colour of the page to the index of its representative. The
  stream holds, after the header, the palette block of \<open>pal\<close> (its length and its
  colours in this order, three bytes each; for an empty \<open>pal\<close> the size 1 and one white
  entry) and then, row by row, one word per run of the page, made of the index of the
  run's colour and the run's length. For a width below \<open>2\<^sup>2\<^sup>0\<close> and
  \<open>max_fg_colors\<close> below \<open>2\<^sup>1\<^sup>2\<close>, the four bytes of every such word read back, most
  significant byte first, as that index in the upper 12 bits and that length in the
  lower 20.
\<close>

theorem DefaultQuantizer_palette:
  assumes "out_fg \<noteq> out_bg"
    and "DefaultQuantizer max_fg_colors pixmap_of out_fg out_bg width height s = Inr s'"
  shows "\<exists>divisor counter qc pal cmap.
     palette_search max_fg_colors
       (foreground_colors (pixmap_of out_fg) (pixmap_of out_bg) width height)
       (card (foreground_colors (pixmap_of out_fg) (pixmap_of out_bg) width height)) 4 {} =
       Inr (divisor, counter, qc) \<and>
     pal = palette_of divisor
             (foreground_colors (pixmap_of out_fg) (pixmap_of out_bg) width height) \<and>
     make_color_map divisor
       (foreground_colors (pixmap_of out_fg) (pixmap_of out_bg) width height)
       (if divisor = 4
        then foreground_colors (pixmap_of out_fg) (pixmap_of out_bg) width height
        else qc) = Inr cmap \<and>
     (divisor \<noteq> 4 \<longrightarrow> (\<forall>c. reduce c divisor = Inr (reduced divisor c))) \<and>
     sorted pal \<and> distinct pal \<and> set pal \<subseteq> {0..262143} \<and>
     length pal \<le> max_fg_colors \<and> length pal = counter \<and>
     (\<forall>c\<in>foreground_colors (pixmap_of out_fg) (pixmap_of out_bg) width height.
        representative divisor c \<in> set pal) \<and>
     (\<forall>i<length pal. position pal (pal ! i) = i) \<and>
     color_index divisor pal Rgb18_none = 0xfff \<and>
     cmap Rgb18_none = Some 0xfff \<and>
     (\<forall>c\<in>foreground_colors (pixmap_of out_fg) (pixmap_of out_bg) width height.
        cmap c = Some (word_of_nat (position pal (representative divisor c)))) \<and>
     (width < 2 ^ 20 \<and> max_fg_colors < 2 ^ 12 \<longrightarrow>
        (\<forall>line\<in>set (map (\<lambda>y. rle_from Rgb18_none 0
                             (map (\<lambda>x. default_color (pixmap_of out_fg y x) (pixmap_of out_bg y x))
                                [0..<nat width]))
                    [0..<nat height]).
           map decode_run
             (map (\<lambda>run. write_uint32
                           (run_word (color_index divisor pal (fst run)) (word_of_nat (snd run))))
                line) =
           map (\<lambda>run. Some (if fst run = Rgb18_none then 0xfff
                              else int (position pal (representative divisor (fst run))),
                              snd run))
             line)) \<and>
     stream s' =
       stream s @ [Str ''R6 '', Dec width, Str '' '', Dec height, Str '' ''] @
       (if pal = [] then [Dec 1, Endl, Str [CHR 0xff, CHR 0xff, CHR 0xff]]
        else [Dec (int (length pal)), Endl] @
             map (\<lambda>color. Write [word_of_int (component color 0), word_of_int (component color 1),
                                  word_of_int (component color 2)]) pal) @
       concat (map (map (\<lambda>run. write_uint32
                                  (run_word (color_index divisor pal (fst run))
                                     (word_of_nat (snd run)))))
                 (map (\<lambda>y. rle_from Rgb18_none 0
                             (map (\<lambda>x. default_color (pixmap_of out_fg y x) (pixmap_of out_bg y x))
                                [0..<nat width]))
                    [0..<nat height]))"
proof -
  let ?st = "default_scan (pixmap_of out_fg) (pixmap_of out_bg) width height s"
  let ?F = "foreground_colors (pixmap_of out_fg) (pixmap_of out_bg) width height"
  let ?rows = "map (\<lambda>y. rle_from Rgb18_none 0
                 (map (\<lambda>x. default_color (pixmap_of out_fg y x) (pixmap_of out_bg y x))
                    [0..<nat width])) [0..<nat height]"
  let ?m0 = "Map.empty(- 1 \<mapsto> 0xfff) :: color_map"
  have orig: "original_colors ?st = ?F" by (rule default_scan_fields(5))
  have rows: "runs ?st = ?rows" by (rule default_scan_fields(4))
  have "counted ?st" by (rule default_scan_fields(6))
  then have fin: "finite ?F" and cnt: "color_counter ?st = card ?F"
    by (simp_all add: counted_def orig)
  have rng: "?F \<subseteq> {0..262143}" by (rule foreground_colors_range)
  have none_out: "Rgb18_none \<notin> ?F" using rng by (auto simp: Rgb18_none_def)
  obtain divisor counter qc cmap where
    search: "palette_search max_fg_colors ?F (card ?F) 4 {} = Inr (divisor, counter, qc)"
    and mk: "make_color_map divisor ?F (if divisor = 4 then ?F else qc) = Inr cmap"
    and s': "s' = output_runs cmap (runs ?st)
           (output_palette counter (if divisor = 4 then ?F else qc) (caller ?st))"
    using DefaultQuantizer_cases [OF assms] unfolding orig cnt by metis
  define P where "P = (if divisor = 4 then ?F else qc)"
  define pal where "pal = palette_of divisor ?F"
  note fp = final_palette [OF search fin rng, folded P_def]
  have P_rep: "P = representative divisor ` ?F"
    using fp(4) by (cases "divisor = 4") (auto simp: P_def representative_def)
  have pal_filter: "pal = filter (\<lambda>c. c \<in> P) all_colors"
    using palette_sorted_list [OF fp(3)] by (simp add: pal_def palette_of_def P_rep)
  note pl = palette_list [OF fp(3), folded pal_filter]
  have len: "length pal = counter" using pl(4) fp(1) by simp
  have empty: "(pal = []) = (counter = 0)" using len by auto
  have reps: "\<forall>c\<in>?F. representative divisor c \<in> set pal"
    using pl(3) P_rep by simp
  have str: "stream s' =
       stream s @ [Str ''R6 '', Dec width, Str '' '', Dec height, Str '' ''] @
       (if pal = [] then [Dec 1, Endl, Str [CHR 0xff, CHR 0xff, CHR 0xff]]
        else [Dec (int (length pal)), Endl] @ map palette_entry pal) @
       concat (map (map (default_item cmap)) ?rows)"
    unfolding s' P_def [symmetric] rows
    by (simp add: output_runs_eq output_palette_eq default_scan_fields(2) pal_filter [symmetric]
          empty len)
  have idx: "\<forall>c\<in>insert Rgb18_none ?F. cmap c = Some (color_index divisor pal c)"
  proof (cases "divisor = 4")
    case True
    then have P: "P = ?F" by (simp add: P_def)
    have cmap: "cmap = fst (number_colors P all_colors (?m0, 0))"
      using mk True by (simp add: make_color_map_plain P)
    have at: "\<forall>i<length pal. cmap (pal ! i) = Some (word_of_nat i)"
      using number_colors_index [OF all_colors_facts(2), of _ P ?m0 0]
      by (simp add: cmap pal_filter)
    have none: "cmap Rgb18_none = Some 0xfff"
      using number_colors_other [of Rgb18_none P all_colors ?m0 0] sentinel_not_a_color
      by (simp add: cmap Rgb18_none_def)
    show ?thesis
    proof
      fix c assume "c \<in> insert Rgb18_none ?F"
      then consider "c = Rgb18_none" | "c \<in> ?F" by auto
      then show "cmap c = Some (color_index divisor pal c)"
      proof cases
        case 1
        then show ?thesis using none by (simp add: lookup0_def color_index_def)
      next
        case 2
        then have "c \<in> set pal" using pl(3) P by simp
        then have "position pal c < length pal" "pal ! position pal c = c"
          using position_nth by auto
        then have "cmap c = Some (word_of_nat (position pal c))" using at by metis
        moreover have "c \<noteq> Rgb18_none" using 2 none_out by auto
        ultimately show ?thesis
          using True by (simp add: lookup0_def color_index_def representative_def)
      qed
    qed
  next
    case False
    then have nf: "\<not> reduce_fault divisor" using fp(4) by simp
    let ?idx = "fst (number_colors P all_colors (Map.empty, 0))"
    have cmap: "cmap = (\<lambda>key. if key \<in> set all_colors
                 then Some (lookup0 ?idx (reduced divisor key)) else ?m0 key)"
      using mk make_color_map_reduced [OF False nf, of ?F P] False by (simp add: P_def)
    have at: "\<forall>i<length pal. ?idx (pal ! i) = Some (word_of_nat i)"
      using number_colors_index [OF all_colors_facts(2), of _ P Map.empty 0]
      by (simp add: pal_filter)
    show ?thesis
    proof
      fix c assume "c \<in> insert Rgb18_none ?F"
      then consider "c = Rgb18_none" | "c \<in> ?F" by auto
      then show "cmap c = Some (color_index divisor pal c)"
      proof cases
        case 1
        then show ?thesis
          using sentinel_not_a_color
          by (simp add: cmap lookup0_def color_index_def Rgb18_none_def)
      next
        case 2
        then have "reduced divisor c \<in> set pal"
          using reps False by (auto simp: representative_def)
        then have "position pal (reduced divisor c) < length pal"
          "pal ! position pal (reduced divisor c) = reduced divisor c"
          using position_nth by auto
        then have "?idx (reduced divisor c) = Some (word_of_nat (position pal (reduced divisor c)))"
          using at by metis
        moreover have "c \<in> set all_colors" using 2 rng by (auto simp: all_colors_facts(3))
        moreover have "c \<noteq> Rgb18_none" using 2 none_out by auto
        ultimately show ?thesis
          using False by (simp add: cmap lookup0_def color_index_def representative_def)
      qed
    qed
  qed
  have items: "map (map (default_item cmap)) ?rows =
      map (map (\<lambda>run. write_uint32 (run_word (color_index divisor pal (fst run))
                                        (word_of_nat (snd run))))) ?rows"
  proof (rule map_cong [OF refl], rule map_cong [OF refl])
    fix line run
    assume "line \<in> set ?rows" and "run \<in> set line"
    then have "fst run \<in> insert Rgb18_none ?F" by (rule run_colors)
    then have "cmap (fst run) = Some (color_index divisor pal (fst run))" using idx by blast
    then have "lookup0 cmap (fst run) = color_index divisor pal (fst run)"
      by (simp add: lookup0_def)
    then show "default_item cmap run =
        write_uint32 (run_word (color_index divisor pal (fst run)) (word_of_nat (snd run)))"
      by (simp add: default_item_def)
  qed
  have red: "divisor \<noteq> 4 \<longrightarrow> (\<forall>c. reduce c divisor = Inr (reduced divisor c))"
    using fp(4) reduce_reduced by blast
  have pos: "\<forall>i<length pal. position pal (pal ! i) = i"
    using position_of_nth [OF pl(2)] by blast
  have none: "color_index divisor pal Rgb18_none = 0xfff" by (simp add: color_index_def)
  have sub: "set pal \<subseteq> {0..262143}" using pl(3) fp(3) by simp
  have le: "length pal \<le> max_fg_colors" using len fp(2) by simp
  have str': "stream s' =
       stream s @ [Str ''R6 '', Dec width, Str '' '', Dec height, Str '' ''] @
       (if pal = [] then [Dec 1, Endl, Str [CHR 0xff, CHR 0xff, CHR 0xff]]
        else [Dec (int (length pal)), Endl] @
             map (\<lambda>color. Write [word_of_int (component color 0), word_of_int (component color 1),
                                  word_of_int (component color 2)]) pal) @
       concat (map (map (\<lambda>run. write_uint32
                                  (run_word (color_index divisor pal (fst run))
                                     (word_of_nat (snd run))))) ?rows)"
    using str unfolding items palette_entry_def .
  have bg: "cmap Rgb18_none = Some 0xfff" using idx none by simp
  have fg: "\<forall>c\<in>?F. cmap c = Some (word_of_nat (position pal (representative divisor c)))"
  proof
    fix c assume c: "c \<in> ?F"
    then have "c \<noteq> Rgb18_none" using none_out by auto
    then show "cmap c = Some (word_of_nat (position pal (representative divisor c)))"
      using idx c by (simp add: color_index_def)
  qed
  have dec: "width < 2 ^ 20 \<and> max_fg_colors < 2 ^ 12 \<longrightarrow>
        (\<forall>line\<in>set ?rows.
           map decode_run
             (map (\<lambda>run. write_uint32
                           (run_word (color_index divisor pal (fst run)) (word_of_nat (snd run))))
                line) =
           map (\<lambda>run. Some (if fst run = Rgb18_none then 0xfff
                              else int (position pal (representative divisor (fst run))),
                              snd run))
             line)"
  proof (intro impI ballI)
    fix line
    assume b: "width < 2 ^ 20 \<and> max_fg_colors < 2 ^ 12" and l: "line \<in> set ?rows"
    have "\<And>run. run \<in> set line \<Longrightarrow>
        decode_run (write_uint32
          (run_word (color_index divisor pal (fst run)) (word_of_nat (snd run)))) =
        Some (if fst run = Rgb18_none then 0xfff
              else int (position pal (representative divisor (fst run))), snd run)"
    proof -
      fix run assume r: "run \<in> set line"
      have c: "fst run \<in> insert Rgb18_none ?F" using l r by (rule run_colors)
      have "snd run \<le> nat width" using l r by (rule run_lengths)
      moreover have "nat width < 2 ^ 20" using b by simp arith
      ultimately have n: "snd run < 2 ^ 20" by simp
      show "decode_run (write_uint32
          (run_word (color_index divisor pal (fst run)) (word_of_nat (snd run)))) =
        Some (if fst run = Rgb18_none then 0xfff
              else int (position pal (representative divisor (fst run))), snd run)"
      proof (cases "fst run = Rgb18_none")
        case True
        then show ?thesis
          using decode_run_word [of "0xfff" "snd run"] n by (simp add: color_index_def)
      next
        case False
        then have "fst run \<in> ?F" using c by simp
        then have "representative divisor (fst run) \<in> set pal" using reps by blast
        then have "position pal (representative divisor (fst run)) < length pal"
          using position_nth by blast
        then have "position pal (representative divisor (fst run)) < 2 ^ 12"
          using le b by simp
        then have p: "int (position pal (representative divisor (fst run))) < 2 ^ 12"
          by simp
        show ?thesis
          using decode_run_word [of "int (position pal (representative divisor (fst run)))"
                                    "snd run"] n p False
          by (simp add: color_index_def)
      qed
    qed
    then show "map decode_run
             (map (\<lambda>run. write_uint32
                           (run_word (color_index divisor pal (fst run)) (word_of_nat (snd run))))
                line) =
           map (\<lambda>run. Some (if fst run = Rgb18_none then 0xfff
                              else int (position pal (representative divisor (fst run))),
                              snd run))
             line"
      by simp
  qed
  from search pal_def mk red pl(1) pl(2) sub le len reps pos none bg fg dec str'
  show ?thesis by blast
qed

text \<open>
  C2 on two pages of one row and two pixels over the background (10, 10, 10). On the
  first, with \<open>max_fg_colors\<close> 256, the pixels are white and (4, 0, 0), with the keys
  262143 and 1: the palette is written in the order of the keys, (4, 0, 0) before white,
  so the white run has the index 1 and the other run the index 0, as the bytes of the two
  run words read back. On the second, with
  \<open>max_fg_colors\<close> 1, the pixels are black and (4, 0, 0): the divisor 5 reduces both to
  black, the palette is black alone, and both runs have the index 0.
\<close>

theorem DefaultQuantizer_palette_witness:
  "(0::nat) \<noteq> 1 \<and>
   (\<exists>s'. DefaultQuantizer 256
            (\<lambda>r y x. if r = 1 then (10, 10, 10) else if x = 0 then (255, 255, 255) else (4, 0, 0))
            0 1 2 1
            \<lparr>background_color = (0, 0, 0), has_foreground = False, has_background = False,
             stream = []\<rparr> = Inr s' \<and>
      stream s' =
        [Str ''R6 '', Dec 2, Str '' '', Dec 1, Str '' '', Dec 2, Endl,
         Write [4, 0, 0], Write [255, 255, 255],
         Write [0x00, 0x10, 0x00, 0x01], Write [0x00, 0x00, 0x00, 0x01]]) \<and>
   map decode_run [Write [0x00, 0x10, 0x00, 0x01], Write [0x00, 0x00, 0x00, 0x01]] =
     [Some (1, 1), Some (0, 1)] \<and>
   (\<exists>s'. DefaultQuantizer 1
            (\<lambda>r y x. if r = 1 then (10, 10, 10) else if x = 0 then (0, 0, 0) else (4, 0, 0))
            0 1 2 1
            \<lparr>background_color = (0, 0, 0), has_foreground = False, has_background = False,
             stream = []\<rparr> = Inr s' \<and>
      stream s' =
        [Str ''R6 '', Dec 2, Str '' '', Dec 1, Str '' '', Dec 1, Endl,
         Write [0, 0, 0],
         Write [0x00, 0x00, 0x00, 0x01], Write [0x00, 0x00, 0x00, 0x01]])"
proof -
  let ?s = "\<lparr>background_color = (0, 0, 0), has_foreground = False, has_background = False,
             stream = []\<rparr>"
  have ne: "(0::nat) \<noteq> 1" by simp
  have first: "\<exists>s'. DefaultQuantizer 256
            (\<lambda>r y x. if r = 1 then (10, 10, 10) else if x = 0 then (255, 255, 255) else (4, 0, 0))
            0 1 2 1 ?s = Inr s' \<and>
      stream s' =
        [Str ''R6 '', Dec 2, Str '' '', Dec 1, Str '' '', Dec 2, Endl,
         Write [4, 0, 0], Write [255, 255, 255],
         Write [0x00, 0x10, 0x00, 0x01], Write [0x00, 0x00, 0x00, 0x01]]"
  proof -
    let ?pm = "\<lambda>r y x. if r = (1::nat) then (10, 10, 10)
                 else if x = (0::nat) then (255, 255, 255) else (4, 0, 0) :: pixel"
    let ?st = "default_scan (?pm 0) (?pm 1) 2 1 ?s"
    let ?F = "foreground_colors (?pm 0) (?pm 1) 2 1"
    have F: "?F = {1, 262143}"
      by (simp add: foreground_colors_def default_color_def upt_rec Rgb18_arith insert_commute)
    have card: "card ?F = 2" unfolding F by simp
    have orig: "original_colors ?st = {1, 262143}"
      using default_scan_fields(5) [of "?pm 0" "?pm 1" 2 1 ?s] F by simp
    have "counted ?st" by (rule default_scan_fields(6))
    then have cnt: "color_counter ?st = 2" unfolding counted_def orig by simp
    have search: "palette_search 256 {1, 262143} 2 4 {} = Inr (4, 2, {})"
      by (simp add: palette_search.simps)
    have "\<exists>s'. DefaultQuantizer 256 ?pm 0 1 2 1 ?s = Inr s'"
      unfolding DefaultQuantizer_def Let_def orig cnt search
      by (simp add: make_color_map_plain)
    then obtain s' where ret: "DefaultQuantizer 256 ?pm 0 1 2 1 ?s = Inr s'" ..
    from DefaultQuantizer_palette [OF ne ret]
    obtain divisor counter qc pal cmap where
      s: "palette_search 256 ?F (card ?F) 4 {} = Inr (divisor, counter, qc)"
      and p: "pal = palette_of divisor ?F"
      and st: "stream s' =
       stream ?s @ [Str ''R6 '', Dec 2, Str '' '', Dec 1, Str '' ''] @
       (if pal = [] then [Dec 1, Endl, Str [CHR 0xff, CHR 0xff, CHR 0xff]]
        else [Dec (int (length pal)), Endl] @
             map (\<lambda>color. Write [word_of_int (component color 0), word_of_int (component color 1),
                                  word_of_int (component color 2)]) pal) @
       concat (map (map (\<lambda>run. write_uint32
                                  (run_word (color_index divisor pal (fst run))
                                     (word_of_nat (snd run)))))
                 (map (\<lambda>y. rle_from Rgb18_none 0
                             (map (\<lambda>x. default_color (?pm 0 y x) (?pm 1 y x))
                                [0..<nat 2]))
                    [0..<nat 1]))"
      by blast
    have d: "divisor = 4"
    proof -
      from s have "palette_search 256 ?F 2 4 {} = Inr (divisor, counter, qc)"
        by (simp only: card)
      then show ?thesis unfolding F search by simp
    qed
    have "sorted_list_of_set {1, 262143 :: int} = [1, 262143]"
      by (rule sorted_distinct_set_unique [symmetric]) auto
    then have pal: "pal = [1, 262143]"
      unfolding p d F palette_of_def representative_def by simp
    have rows: "map (\<lambda>y. rle_from Rgb18_none 0
                             (map (\<lambda>x. default_color (?pm 0 y x) (?pm 1 y x))
                                [0..<nat 2])) [0..<nat 1] = [[(262143, 1), (1, 1)]]"
      by (simp add: default_color_def upt_rec Rgb18_arith Rgb18_none_def)
    have "stream s' =
        [Str ''R6 '', Dec 2, Str '' '', Dec 1, Str '' '', Dec 2, Endl,
         Write [4, 0, 0], Write [255, 255, 255],
         Write [0x00, 0x10, 0x00, 0x01], Write [0x00, 0x00, 0x00, 0x01]]"
      unfolding st rows pal d
      by (simp add: color_index_def representative_def Rgb18_none_def write_uint32_bytes
            run_word_def component_def drop_bit_eq_div push_bit_eq_mult)
    with ret show ?thesis by blast
  qed
  have second: "\<exists>s'. DefaultQuantizer 1
            (\<lambda>r y x. if r = 1 then (10, 10, 10) else if x = 0 then (0, 0, 0) else (4, 0, 0))
            0 1 2 1 ?s = Inr s' \<and>
      stream s' =
        [Str ''R6 '', Dec 2, Str '' '', Dec 1, Str '' '', Dec 1, Endl,
         Write [0, 0, 0],
         Write [0x00, 0x00, 0x00, 0x01], Write [0x00, 0x00, 0x00, 0x01]]"
  proof -
    let ?pm = "\<lambda>r y x. if r = (1::nat) then (10, 10, 10)
                 else if x = (0::nat) then (0, 0, 0) else (4, 0, 0) :: pixel"
    let ?st = "default_scan (?pm 0) (?pm 1) 2 1 ?s"
    let ?F = "foreground_colors (?pm 0) (?pm 1) 2 1"
    have F: "?F = {0, 1}"
      by (simp add: foreground_colors_def default_color_def upt_rec Rgb18_arith insert_commute)
    have card: "card ?F = 2" unfolding F by simp
    have orig: "original_colors ?st = {0, 1}"
      using default_scan_fields(5) [of "?pm 0" "?pm 1" 2 1 ?s] F by simp
    have "counted ?st" by (rule default_scan_fields(6))
    then have cnt: "color_counter ?st = 2" unfolding counted_def orig by simp
    have nf: "\<not> reduce_fault 5" by (rule reduce_not_fault) simp_all
    have r0: "reduced 5 0 = 0" and r1: "reduced 5 1 = 0"
      by (simp_all add: reduced_def reduce_component_def component_def Rgb18_def Let_def
            signed_divide_int_def drop_bit_eq_div push_bit_eq_mult)
    define cs where "cs = [1 + 1..262143::int]"
    have a: "[0..262143::int] = 0 # [0 + 1..262143]" by (rule upto_rec1) simp
    have b: "[1..262143::int] = 1 # [1 + 1..262143]" by (rule upto_rec1) simp
    have z: "(0::int) + 1 = 1" by simp
    have colors: "all_colors = [0, 1] @ cs"
      unfolding all_colors_def cs_def by (simp only: a z b append.simps)
    have skip: "\<forall>c\<in>set cs. c \<notin> {0, 1::int}"
      unfolding cs_def by (simp only: set_upto) auto
    have rest: "\<And>m q n. count_reduced m 5 {0, 1} cs q n = Inr (q, n)"
      using count_reduced_skip [OF skip, of _ 5 "[]"] by simp
    have pass: "count_reduced 1 5 {0, 1} all_colors {} 0 = Inr ({0}, 1)"
      unfolding colors by (simp add: reduce_reduced [OF nf] r0 r1 rest)
    have search: "palette_search 1 {0, 1} 2 4 {} = Inr (5, 1, {0})"
      using pass by (subst palette_search.simps) (simp add: palette_search.simps)
    have "\<exists>s'. DefaultQuantizer 1 ?pm 0 1 2 1 ?s = Inr s'"
      unfolding DefaultQuantizer_def Let_def orig cnt search
      by (simp add: make_color_map_reduced [OF _ nf])
    then obtain s' where ret: "DefaultQuantizer 1 ?pm 0 1 2 1 ?s = Inr s'" ..
    from DefaultQuantizer_palette [OF ne ret]
    obtain divisor counter qc pal cmap where
      s: "palette_search 1 ?F (card ?F) 4 {} = Inr (divisor, counter, qc)"
      and p: "pal = palette_of divisor ?F"
      and st: "stream s' =
       stream ?s @ [Str ''R6 '', Dec 2, Str '' '', Dec 1, Str '' ''] @
       (if pal = [] then [Dec 1, Endl, Str [CHR 0xff, CHR 0xff, CHR 0xff]]
        else [Dec (int (length pal)), Endl] @
             map (\<lambda>color. Write [word_of_int (component color 0), word_of_int (component color 1),
                                  word_of_int (component color 2)]) pal) @
       concat (map (map (\<lambda>run. write_uint32
                                  (run_word (color_index divisor pal (fst run))
                                     (word_of_nat (snd run)))))
                 (map (\<lambda>y. rle_from Rgb18_none 0
                             (map (\<lambda>x. default_color (?pm 0 y x) (?pm 1 y x))
                                [0..<nat 2]))
                    [0..<nat 1]))"
      by blast
    have d: "divisor = 5"
    proof -
      from s have "palette_search 1 ?F 2 4 {} = Inr (divisor, counter, qc)"
        by (simp only: card)
      then show ?thesis unfolding F search by simp
    qed
    have pal: "pal = [0]"
      unfolding p d F palette_of_def representative_def by (simp add: r0 r1)
    have rows: "map (\<lambda>y. rle_from Rgb18_none 0
                             (map (\<lambda>x. default_color (?pm 0 y x) (?pm 1 y x))
                                [0..<nat 2])) [0..<nat 1] = [[(0, 1), (1, 1)]]"
      by (simp add: default_color_def upt_rec Rgb18_arith Rgb18_none_def)
    have "stream s' =
        [Str ''R6 '', Dec 2, Str '' '', Dec 1, Str '' '', Dec 1, Endl,
         Write [0, 0, 0],
         Write [0x00, 0x00, 0x00, 0x01], Write [0x00, 0x00, 0x00, 0x01]]"
      unfolding st rows pal d
      by (simp add: color_index_def representative_def Rgb18_none_def write_uint32_bytes
            run_word_def component_def drop_bit_eq_div push_bit_eq_mult r0 r1)
    with ret show ?thesis by blast
  qed
  have words: "map decode_run [Write [0x00, 0x10, 0x00, 0x01], Write [0x00, 0x00, 0x00, 0x01]] =
     [Some (1, 1), Some (0, 1)]"
    by (simp add: decode_run_def)
  from ne first words second show ?thesis by (intro conjI)
qed

end
